theory Spec2Isabelle
  imports Main "HOL-Library.Word"
begin

unbundle bit_operations_syntax

section \<open>Machine types and enumerations\<close>

text \<open>
  The simulator is C++ compiled for an LP64 target: \<^verbatim>\<open>unsigned\<close> is 32 bits wide,
  \<^verbatim>\<open>unsigned long\<close>, \<^verbatim>\<open>unsigned long long\<close> and \<^verbatim>\<open>uint64_t\<close> are 64 bits wide.
  Arithmetic on both wraps around, which is what \<open>+\<close>, \<open>-\<close> and \<open>*\<close> do on words.
\<close>

type_synonym u32 = "32 word"
type_synonym u64 = "64 word"

text \<open>
  Modelled from the spec: \<^verbatim>\<open>types.h\<close> is not among the sources. It declares the
  enumerations \<^verbatim>\<open>Mode\<close> (the simulation modes A, B, C and D/E/F) and \<^verbatim>\<open>AccessType\<close>
  (instruction fetch, load, store); the enumerator names are the ones the code uses.
\<close>

datatype Mode = SIM_MODE_A | SIM_MODE_B | SIM_MODE_C | SIM_MODE_DEF

datatype AccessType = ACCESS_TYPE_IFETCH | ACCESS_TYPE_LOAD | ACCESS_TYPE_STORE

text \<open>\<^verbatim>\<open>cache.h\<close>: the replacement policies and the outcome of a cache access.\<close>

datatype ReplacementPolicy = LRU | RANDOM | SWP | DWP

datatype CacheResult = HIT | MISS

text \<open>\<^verbatim>\<open>dram.h\<close>: the page policies.\<close>

datatype DRAMPolicy = OPEN_PAGE | CLOSE_PAGE

section \<open>Process-wide variables\<close>

text \<open>
  The \<^verbatim>\<open>extern\<close> variables the three modules read, the one global they write
  (\<^verbatim>\<open>DWP_CORE0_WAYS\<close>, defined in \<^verbatim>\<open>cache.cpp\<close>), and the service of the platform
  whose results the code consumes: \<open>rand_tape\<close> is the sequence of values the C library's
  \<^verbatim>\<open>rand()\<close> is going to return, already converted to \<^verbatim>\<open>unsigned\<close>; a call reads
  position 0 and shifts the tape (\<open>rand_call\<close>).
\<close>

record Globals =
  SIM_MODE :: Mode
  CACHE_LINESIZE :: u64
  REPL_POLICY :: ReplacementPolicy
  DCACHE_SIZE :: u64
  DCACHE_ASSOC :: u64
  ICACHE_SIZE :: u64
  ICACHE_ASSOC :: u64
  L2CACHE_SIZE :: u64
  L2CACHE_ASSOC :: u64
  L2CACHE_REPL :: ReplacementPolicy
  NUM_CORES :: u32
  DRAM_PAGE_POLICY :: DRAMPolicy
  current_cycle :: u64
  SWP_CORE0_WAYS :: u32
  DWP_CORE0_WAYS :: u32
  rand_tape :: "nat \<Rightarrow> u32"

definition rand_call :: "Globals \<Rightarrow> u32 \<times> Globals" where
  "rand_call g = (rand_tape g 0, g\<lparr>rand_tape := (\<lambda>n. rand_tape g (Suc n))\<rparr>)"

text \<open>
  \<^verbatim>\<open>(unsigned)(std::log2(x))\<close> for an integer \<open>x \<ge> 1\<close>: the integer part of the base 2
  logarithm. (For \<open>x = 0\<close> the C expression converts minus infinity, which is undefined;
  \<open>ilog2 0 = 0\<close> here and no theorem below uses it.)
\<close>

fun ilog2 :: "nat \<Rightarrow> nat" where
  "ilog2 n = (if n < 2 then 0 else Suc (ilog2 (n div 2)))"

declare ilog2.simps [simp del]

section \<open>DRAM (dram.h, dram.cpp)\<close>

record RowBuffer =
  valid_rb :: bool
  rowID :: u32

record DRAM =
  rowbuf :: "RowBuffer list"
  bank_bits :: u32
  stat_read_access_dram :: u64
  stat_read_delay :: u64
  stat_write_access_dram :: u64
  stat_write_delay :: u64

abbreviation (input) DELAY_SIM_MODE_B :: u64 where "DELAY_SIM_MODE_B \<equiv> 100"
abbreviation (input) DELAY_ACT :: u64 where "DELAY_ACT \<equiv> 45"
abbreviation (input) DELAY_CAS :: u64 where "DELAY_CAS \<equiv> 45"
abbreviation (input) DELAY_PRE :: u64 where "DELAY_PRE \<equiv> 45"
abbreviation (input) DELAY_BUS :: u64 where "DELAY_BUS \<equiv> 10"
abbreviation (input) NUM_BANKS :: nat where "NUM_BANKS \<equiv> 16"

text \<open>\<^verbatim>\<open>dram_new\<close>: \<^verbatim>\<open>calloc\<close> zeroes the row buffers (invalid, row 0).\<close>

definition dram_new :: DRAM where
  "dram_new =
     \<lparr>rowbuf = replicate NUM_BANKS \<lparr>valid_rb = False, rowID = 0\<rparr>,
      bank_bits = of_nat (ilog2 NUM_BANKS),
      stat_read_access_dram = 0, stat_read_delay = 0,
      stat_write_access_dram = 0, stat_write_delay = 0\<rparr>"

text \<open>
  The two locals of \<^verbatim>\<open>dram_access_mode_CDEF\<close>: the row number is the line address
  shifted right by \<open>bank_bits\<close> and cast to \<^verbatim>\<open>unsigned\<close> (the upper 32 bits are cut off),
  the bank is the row number modulo \<open>NUM_BANKS\<close>.
\<close>

definition dram_row_no :: "DRAM \<Rightarrow> u64 \<Rightarrow> u32" where
  "dram_row_no dram line_addr = ucast (drop_bit (unat (bank_bits dram)) line_addr)"

definition dram_bank_no :: "DRAM \<Rightarrow> u64 \<Rightarrow> nat" where
  "dram_bank_no dram line_addr = unat (dram_row_no dram line_addr mod of_nat NUM_BANKS)"

definition dram_access_mode_CDEF :: "Globals \<Rightarrow> DRAM \<Rightarrow> u64 \<Rightarrow> bool \<Rightarrow> u64 \<times> DRAM" where
  "dram_access_mode_CDEF g dram line_addr is_dram_write =
     (let row_no = dram_row_no dram line_addr;
          bank_no = dram_bank_no dram line_addr;
          rb = rowbuf dram ! bank_no
      in if DRAM_PAGE_POLICY g = OPEN_PAGE then
           (if valid_rb rb then
              (if rowID rb = row_no then (DELAY_BUS + DELAY_CAS, dram)
               else (DELAY_BUS + (DELAY_PRE + DELAY_ACT + DELAY_CAS),
                     dram\<lparr>rowbuf := (rowbuf dram)[bank_no := rb\<lparr>rowID := row_no\<rparr>]\<rparr>))
            else (DELAY_BUS + (DELAY_ACT + DELAY_CAS),
                  dram\<lparr>rowbuf := (rowbuf dram)[bank_no := rb\<lparr>rowID := row_no, valid_rb := True\<rparr>]\<rparr>))
         else (DELAY_BUS + (DELAY_ACT + DELAY_CAS),
               dram\<lparr>rowbuf := (rowbuf dram)[bank_no := rb\<lparr>rowID := row_no, valid_rb := False\<rparr>]\<rparr>))"

definition dram_access :: "Globals \<Rightarrow> DRAM \<Rightarrow> u64 \<Rightarrow> bool \<Rightarrow> u64 \<times> DRAM" where
  "dram_access g dram line_addr is_dram_write =
     (let (delay, d) =
            (if SIM_MODE g = SIM_MODE_B then (DELAY_SIM_MODE_B, dram)
             else dram_access_mode_CDEF g dram line_addr is_dram_write)
      in if is_dram_write
         then (delay, d\<lparr>stat_write_access_dram := stat_write_access_dram d + 1,
                        stat_write_delay := stat_write_delay d + delay\<rparr>)
         else (delay, d\<lparr>stat_read_access_dram := stat_read_access_dram d + 1,
                        stat_read_delay := stat_read_delay d + delay\<rparr>))"

text \<open>
  A driver for the scenarios: a sequence of DRAM reads, the delay of each in order.
\<close>

fun dram_reads :: "Globals \<Rightarrow> DRAM \<Rightarrow> u64 list \<Rightarrow> u64 list" where
  "dram_reads g dram [] = []"
| "dram_reads g dram (a # as) =
     (let (delay, d) = dram_access g dram a False in delay # dram_reads g d as)"

section \<open>Address translation (memsys.cpp)\<close>

text \<open>
  \<^verbatim>\<open>memsys_convert_vpn_to_pfn\<close>. The \<^verbatim>\<open>assert(NUM_CORES == 2)\<close> aborts the program when
  it fails: the result is \<open>None\<close>. \<^verbatim>\<open>core_id << 21\<close> is computed on 32 bits and
  then widened; the other operands are 64 bits wide.
\<close>

definition memsys_convert_vpn_to_pfn :: "Globals \<Rightarrow> u64 \<Rightarrow> u32 \<Rightarrow> u64 option" where
  "memsys_convert_vpn_to_pfn g vpn core_id =
     (if NUM_CORES g \<noteq> 2 then None
      else let tail = vpn AND 0x000fffff;
               head = drop_bit 20 vpn;
               pfn = tail + ucast (push_bit 21 core_id) + push_bit 21 head
           in Some pfn)"

section \<open>Cache (cache.h, cache.cpp)\<close>

record CacheLine =
  valid :: bool
  dirty :: bool
  tag :: u64
  coreID :: u32
  lastAccessTime :: u64

record UMON =
  totalHits :: "u32 list"
  totalMisses :: u32

record CacheSet =
  row :: "CacheLine list"
  ways_per_core :: "u32 list"
  umon :: UMON

record Cache =
  cacheGrid :: "CacheSet list"
  ways :: u32
  sets :: u32
  policy :: ReplacementPolicy
  lastEvictedLine :: CacheLine
  index_mask :: u32
  index_bits :: u32
  stat_read_access :: u64
  stat_read_miss :: u64
  stat_write_access :: u64
  stat_write_miss :: u64
  stat_dirty_evicts :: u64

abbreviation (input) MAX_WAYS_PER_CACHE_SET :: nat where "MAX_WAYS_PER_CACHE_SET \<equiv> 16"

text \<open>
  Arrays are lists: \<open>cacheGrid\<close> has \<open>sets\<close> entries, each \<open>row\<close> has \<open>ways\<close> entries,
  \<open>ways_per_core\<close> has 2 and \<open>totalHits\<close> has \<open>MAX_WAYS_PER_CACHE_SET\<close>. An index outside
  its array is undefined behaviour in C; the predicate \<open>cache_wf\<close> below says that the
  indices the code computes stay inside, and the theorems assume it together with
  \<open>core_id < 2\<close>. (Outside, \<open>xs ! i\<close> and \<open>xs[i := v]\<close> are what HOL makes of them, and no
  theorem speaks of that.)
\<close>

definition zero_line :: CacheLine where
  "zero_line = \<lparr>valid = False, dirty = False, tag = 0, coreID = 0, lastAccessTime = 0\<rparr>"

text \<open>
  \<^verbatim>\<open>cache_new\<close>. The sets and the lines come from \<^verbatim>\<open>calloc\<close> (all zero). The \<^verbatim>\<open>Cache\<close>
  itself comes from \<^verbatim>\<open>malloc\<close>, so \<open>lastEvictedLine\<close> starts with no defined value; the
  code reads it only after an install has written it, and it starts as the zero line
  here. The divisions are on 64 bits, the results are stored into \<^verbatim>\<open>unsigned\<close> fields
  (a division by zero stops the program; here it yields 0 sets, which \<open>cache_wf\<close> and
  \<open>reachable\<close> below exclude). The statement \<^verbatim>\<open>umon.totalHits[MAX_WAYS_PER_CACHE_SET] = {0}\<close>
  stores one zero just past the array; the counters are zero from \<^verbatim>\<open>calloc\<close> already.
\<close>

definition cache_new :: "u64 \<Rightarrow> u64 \<Rightarrow> u64 \<Rightarrow> ReplacementPolicy \<Rightarrow> Cache" where
  "cache_new size_bytes associativity line_size replacement_policy =
     (let c_ways = (ucast associativity :: u32);
          c_sets = (ucast ((size_bytes div line_size) div associativity) :: u32);
          c_index_bits = (of_nat (ilog2 (unat c_sets)) :: u32)
      in \<lparr>cacheGrid = replicate (unat c_sets)
             \<lparr>row = replicate (unat c_ways) zero_line,
              ways_per_core = [0, 0],
              umon = \<lparr>totalHits = replicate MAX_WAYS_PER_CACHE_SET 0, totalMisses = 0\<rparr>\<rparr>,
          ways = c_ways,
          sets = c_sets,
          policy = replacement_policy,
          lastEvictedLine = zero_line,
          index_mask = push_bit (unat c_index_bits) 1 - 1,
          index_bits = c_index_bits,
          stat_read_access = 0, stat_read_miss = 0,
          stat_write_access = 0, stat_write_miss = 0,
          stat_dirty_evicts = 0\<rparr>)"

text \<open>
  The search loop of \<^verbatim>\<open>cache_access\<close> over the ways \<open>i, i + 1, \<dots>\<close> of a row: the first
  way that is valid, belongs to the core and carries the tag.
\<close>

fun find_hit :: "CacheLine list \<Rightarrow> nat \<Rightarrow> u32 \<Rightarrow> u64 \<Rightarrow> nat option" where
  "find_hit [] i core_id tag_to_check = None"
| "find_hit (l # ls) i core_id tag_to_check =
     (if valid l = True \<and> coreID l = core_id \<and> tag l = tag_to_check then Some i
      else find_hit ls (Suc i) core_id tag_to_check)"

definition cache_access :: "Globals \<Rightarrow> Cache \<Rightarrow> u64 \<Rightarrow> bool \<Rightarrow> u32 \<Rightarrow> CacheResult \<times> Cache" where
  "cache_access g c line_addr is_write core_id =
     (let set_to_check = unat (line_addr AND ucast (index_mask c));
          tag_to_check = drop_bit (unat (index_bits c)) line_addr;
          c1 = (if is_write then c\<lparr>stat_write_access := stat_write_access c + 1\<rparr>
                else c\<lparr>stat_read_access := stat_read_access c + 1\<rparr>);
          s = cacheGrid c1 ! set_to_check
      in case find_hit (row s) 0 core_id tag_to_check of
           Some i \<Rightarrow>
             (let l = row s ! i;
                  l1 = (if is_write then l\<lparr>dirty := True\<rparr> else l);
                  l2 = l1\<lparr>lastAccessTime := current_cycle g\<rparr>;
                  hits = totalHits (umon s);
                  s1 = s\<lparr>row := (row s)[i := l2],
                         umon := (umon s)\<lparr>totalHits := hits[i := hits ! i + 1]\<rparr>\<rparr>
              in (HIT, c1\<lparr>cacheGrid := (cacheGrid c1)[set_to_check := s1]\<rparr>))
         | None \<Rightarrow>
             (let c2 = (if is_write then c1\<lparr>stat_write_miss := stat_write_miss c1 + 1\<rparr>
                        else c1\<lparr>stat_read_miss := stat_read_miss c1 + 1\<rparr>);
                  s1 = s\<lparr>umon := (umon s)\<lparr>totalMisses := totalMisses (umon s) + 1\<rparr>\<rparr>
              in (MISS, c2\<lparr>cacheGrid := (cacheGrid c2)[set_to_check := s1]\<rparr>)))"

text \<open>
  The loops of \<^verbatim>\<open>cache_find_victim\<close>, each over the ways \<open>i, i + 1, \<dots>\<close> of a row:
  \<^item> \<open>first_invalid\<close>: the check for an empty slot, which returns the first invalid way;
  \<^item> \<open>lru_scan\<close>: the LRU loop, carrying \<^verbatim>\<open>index\<close> and \<^verbatim>\<open>oldestTime\<close>;
  \<^item> \<open>first_of_core\<close>: the first loop of SWP and DWP, which stops at the first way
    whose \<open>coreID\<close> is \<^verbatim>\<open>core_to_assign\<close>;
  \<^item> \<open>oldest_of_core\<close>: their second loop, which goes on from that way.
\<close>

fun first_invalid :: "CacheLine list \<Rightarrow> nat \<Rightarrow> nat option" where
  "first_invalid [] i = None"
| "first_invalid (l # ls) i = (if valid l = False then Some i else first_invalid ls (Suc i))"

fun lru_scan :: "CacheLine list \<Rightarrow> nat \<Rightarrow> nat \<times> u64 \<Rightarrow> nat \<times> u64" where
  "lru_scan [] i (index, oldestTime) = (index, oldestTime)"
| "lru_scan (l # ls) i (index, oldestTime) =
     (if lastAccessTime l < oldestTime then lru_scan ls (Suc i) (i, lastAccessTime l)
      else lru_scan ls (Suc i) (index, oldestTime))"

fun first_of_core :: "CacheLine list \<Rightarrow> nat \<Rightarrow> u32 \<Rightarrow> nat option" where
  "first_of_core [] i core_to_assign = None"
| "first_of_core (l # ls) i core_to_assign =
     (if coreID l = core_to_assign then Some i else first_of_core ls (Suc i) core_to_assign)"

fun oldest_of_core :: "CacheLine list \<Rightarrow> nat \<Rightarrow> u32 \<Rightarrow> nat \<times> u64 \<Rightarrow> nat \<times> u64" where
  "oldest_of_core [] i core_to_assign (index, oldestTime) = (index, oldestTime)"
| "oldest_of_core (l # ls) i core_to_assign (index, oldestTime) =
     (if coreID l = core_to_assign \<and> lastAccessTime l < oldestTime
      then oldest_of_core ls (Suc i) core_to_assign (i, lastAccessTime l)
      else oldest_of_core ls (Suc i) core_to_assign (index, oldestTime))"

text \<open>
  The two loops of SWP and DWP together. When no way belongs to \<open>core_to_assign\<close> the
  first loop runs to the end, the second does not run, and \<^verbatim>\<open>index\<close> keeps its initial
  value 0.
\<close>

definition way_of_core :: "CacheLine list \<Rightarrow> u32 \<Rightarrow> nat" where
  "way_of_core r core_to_assign =
     (case first_of_core r 0 core_to_assign of
        None \<Rightarrow> 0
      | Some i \<Rightarrow> fst (oldest_of_core (drop i r) i core_to_assign (i, lastAccessTime (r ! i))))"

text \<open>
  The DWP loop that adds up \<open>umon.totalHits[way]\<close> over the ways whose line belongs to
  \<open>core\<close> (\<^verbatim>\<open>totalHitbasedUtility[core]\<close>, an \<^verbatim>\<open>unsigned\<close>).
\<close>

fun hits_of_core :: "CacheLine list \<Rightarrow> u32 list \<Rightarrow> u32 \<Rightarrow> u32 \<Rightarrow> u32" where
  "hits_of_core (l # ls) (h # hs) core acc =
     hits_of_core ls hs core (if coreID l = core then acc + h else acc)"
| "hits_of_core ls hs core acc = acc"

text \<open>
  The double precision arithmetic of \<^verbatim>\<open>(0.7 * h) + (0.3 * m)\<close>, for \<^verbatim>\<open>unsigned\<close> \<open>h\<close> and
  \<open>m\<close>: IEEE 754 binary64, every operation rounded to nearest, ties to even, and no
  contraction of the product and the sum into one fused operation. All the values that
  occur are multiples of \<open>2 ^ -54\<close> below \<open>2 ^ 33\<close>, so an integer \<open>n \<ge> 0\<close> stands for the
  real number \<open>n / 2 ^ 54\<close>. Such a number is a binary64 value when \<open>n < 2 ^ 53\<close>, or when \<open>n\<close>
  has \<open>53 + q\<close> binary digits and is a multiple of \<open>2 ^ q\<close>; \<open>round_binary64\<close> is the rounding
  of the exact result of an operation.

  The literals: \<^verbatim>\<open>0.7\<close> is the binary64 value \<open>12610078956637388 / 2 ^ 54\<close> and \<^verbatim>\<open>0.3\<close> is
  \<open>5404319552844595 / 2 ^ 54\<close> (the nearest values: \<open>10 * 12610078956637388 = 7 * 2 ^ 54 - 8\<close>
  and \<open>10 * 5404319552844595 = 3 * 2 ^ 54 - 2\<close>). The conversion of \<open>h\<close> and \<open>m\<close> to double
  is exact, and the conversion of the sum to \<^verbatim>\<open>unsigned\<close> drops the fraction; the sum is
  below \<open>2 ^ 32\<close> (\<open>fp_utility_floor\<close> below), so this conversion is always defined.
\<close>

function bit_length :: "int \<Rightarrow> nat" where
  "bit_length n = (if n \<le> 0 then 0 else Suc (bit_length (n div 2)))"
  by auto

termination bit_length
  by (relation "measure nat") auto

declare bit_length.simps [simp del]

definition round_binary64 :: "int \<Rightarrow> int" where
  "round_binary64 n =
     (if bit_length n \<le> 53 then n
      else let q = bit_length n - 53; lo = n div 2 ^ q; r = n mod 2 ^ q
           in if 2 ^ (q - 1) < r \<or> (r = 2 ^ (q - 1) \<and> odd lo)
              then (lo + 1) * 2 ^ q else lo * 2 ^ q)"

definition fp_utility :: "u32 \<Rightarrow> u32 \<Rightarrow> u32" where
  "fp_utility h m =
     (let hit_part = round_binary64 (12610078956637388 * uint h);
          miss_part = round_binary64 (5404319552844595 * uint m);
          total = round_binary64 (hit_part + miss_part)
      in word_of_int (total div 2 ^ 54))"

text \<open>
  The DWP quota: \<^verbatim>\<open>totalUtility[core]\<close> is \<open>fp_utility\<close> of the hits and the misses of the
  set; \<^verbatim>\<open>std::fmax(totalUtility[0] + totalUtility[1], 1U)\<close> compares two 32-bit integers
  as doubles, which is exact; the product and the quotient are on 32 bits.
\<close>

definition dwp_quota :: "Cache \<Rightarrow> CacheSet \<Rightarrow> u32" where
  "dwp_quota c s =
     (let totalUtility0 =
            fp_utility (hits_of_core (row s) (totalHits (umon s)) 0 0) (0 + totalMisses (umon s));
          totalUtility1 =
            fp_utility (hits_of_core (row s) (totalHits (umon s)) 1 0) (0 + totalMisses (umon s));
          totalUtilitySum = max (totalUtility0 + totalUtility1) 1
      in (totalUtility0 * ways c) div totalUtilitySum)"

definition cache_find_victim :: "Globals \<Rightarrow> Cache \<Rightarrow> nat \<Rightarrow> u32 \<Rightarrow> nat \<times> Globals" where
  "cache_find_victim g c set_index core_id =
     (let s = cacheGrid c ! set_index; r = row s
      in case policy c of
           LRU \<Rightarrow>
             (case first_invalid r 0 of
                Some i \<Rightarrow> (i, g)
              | None \<Rightarrow> (fst (lru_scan r 0 (0, lastAccessTime (r ! 0))), g))
         | RANDOM \<Rightarrow>
             (case first_invalid r 0 of
                Some i \<Rightarrow> (i, g)
              | None \<Rightarrow> (let (x, g1) = rand_call g in (unat (x mod ways c), g1)))
         | SWP \<Rightarrow>
             (case first_invalid r 0 of
                Some i \<Rightarrow> (i, g)
              | None \<Rightarrow>
                  (let core_to_assign =
                         (if ways_per_core s ! 0 < SWP_CORE0_WAYS g then 1 else core_id)
                   in (way_of_core r core_to_assign, g)))
         | DWP \<Rightarrow>
             (case first_invalid r 0 of
                Some i \<Rightarrow> (i, g)
              | None \<Rightarrow>
                  (let g1 = g\<lparr>DWP_CORE0_WAYS := dwp_quota c s\<rparr>;
                       core_to_assign =
                         (if ways_per_core s ! 0 < DWP_CORE0_WAYS g1 then 1 else core_id)
                   in (way_of_core r core_to_assign, g1))))"

definition cache_install :: "Globals \<Rightarrow> Cache \<Rightarrow> u64 \<Rightarrow> bool \<Rightarrow> u32 \<Rightarrow> Cache \<times> Globals" where
  "cache_install g c line_addr is_write core_id =
     (let set_to_add = unat ((line_addr AND ucast (index_mask c)) mod ucast (sets c));
          (i, g1) = cache_find_victim g c set_to_add core_id;
          s = cacheGrid c ! set_to_add;
          evicted = row s ! i;
          c1 = c\<lparr>lastEvictedLine := evicted\<rparr>;
          c2 = (if valid evicted = True \<and> dirty evicted = True
                then c1\<lparr>stat_dirty_evicts := stat_dirty_evicts c1 + 1\<rparr> else c1);
          w = ways_per_core s;
          w1 = (if valid evicted = True
                then w[unat (coreID evicted) := w ! unat (coreID evicted) - 1] else w);
          l1 = evicted\<lparr>valid := True, dirty := False,
                        tag := drop_bit (unat (index_bits c)) line_addr,
                        coreID := core_id\<rparr>;
          w2 = w1[unat core_id := w1 ! unat core_id + 1];
          l2 = l1\<lparr>lastAccessTime := current_cycle g1\<rparr>;
          l3 = (if is_write then l2\<lparr>dirty := True\<rparr> else l2);
          s1 = s\<lparr>row := (row s)[i := l3], ways_per_core := w2\<rparr>
      in (c2\<lparr>cacheGrid := (cacheGrid c2)[set_to_add := s1]\<rparr>, g1))"

section \<open>Memory system (memsys.h, memsys.cpp)\<close>

text \<open>
  The caches and the DRAM of a \<^verbatim>\<open>MemorySystem\<close> are pointers, null unless \<^verbatim>\<open>memsys_new\<close>
  allocated them for the mode: \<open>None\<close> is the null pointer. The functions below return
  \<open>None\<close> where the program dereferences a null pointer, indexes \<open>dcache_coreid\<close> or
  \<open>icache_coreid\<close> outside 0 and 1, divides by zero, shifts by a negative count or fails
  its assertion: the run has no result.
\<close>

record MemorySystem =
  dcache :: "Cache option"
  icache :: "Cache option"
  dcache_coreid :: "Cache option list"
  icache_coreid :: "Cache option list"
  l2cache :: "Cache option"
  dram :: "DRAM option"
  stat_ifetch_access :: u64
  stat_load_access :: u64
  stat_store_access :: u64
  stat_ifetch_delay :: u64
  stat_load_delay :: u64
  stat_store_delay :: u64

abbreviation (input) PAGE_SIZE :: nat where "PAGE_SIZE \<equiv> 4096"
abbreviation (input) DCACHE_HIT_LATENCY :: u64 where "DCACHE_HIT_LATENCY \<equiv> 1"
abbreviation (input) ICACHE_HIT_LATENCY :: u64 where "ICACHE_HIT_LATENCY \<equiv> 1"
abbreviation (input) L2CACHE_HIT_LATENCY :: u64 where "L2CACHE_HIT_LATENCY \<equiv> 10"

text \<open>
  \<^verbatim>\<open>memsys_new\<close>. In modes B and C the L2 cache is built with \<open>REPL_POLICY\<close>, in mode
  D/E/F with \<open>L2CACHE_REPL\<close>; the loop of mode D/E/F fills the entries below \<open>NUM_CORES\<close>.
\<close>

definition memsys_new :: "Globals \<Rightarrow> MemorySystem" where
  "memsys_new g =
     (let sys = \<lparr>dcache = None, icache = None,
                 dcache_coreid = [None, None], icache_coreid = [None, None],
                 l2cache = None, dram = None,
                 stat_ifetch_access = 0, stat_load_access = 0, stat_store_access = 0,
                 stat_ifetch_delay = 0, stat_load_delay = 0, stat_store_delay = 0\<rparr>;
          new_d = cache_new (DCACHE_SIZE g) (DCACHE_ASSOC g) (CACHE_LINESIZE g) (REPL_POLICY g);
          new_i = cache_new (ICACHE_SIZE g) (ICACHE_ASSOC g) (CACHE_LINESIZE g) (REPL_POLICY g)
      in case SIM_MODE g of
           SIM_MODE_A \<Rightarrow> sys\<lparr>dcache := Some new_d\<rparr>
         | SIM_MODE_B \<Rightarrow>
             sys\<lparr>dcache := Some new_d, icache := Some new_i,
                 l2cache := Some (cache_new (L2CACHE_SIZE g) (L2CACHE_ASSOC g) (CACHE_LINESIZE g)
                                   (REPL_POLICY g)),
                 dram := Some dram_new\<rparr>
         | SIM_MODE_C \<Rightarrow>
             sys\<lparr>dcache := Some new_d, icache := Some new_i,
                 l2cache := Some (cache_new (L2CACHE_SIZE g) (L2CACHE_ASSOC g) (CACHE_LINESIZE g)
                                   (REPL_POLICY g)),
                 dram := Some dram_new\<rparr>
         | SIM_MODE_DEF \<Rightarrow>
             sys\<lparr>l2cache := Some (cache_new (L2CACHE_SIZE g) (L2CACHE_ASSOC g) (CACHE_LINESIZE g)
                                   (L2CACHE_REPL g)),
                 dram := Some dram_new,
                 dcache_coreid := map (\<lambda>i. if i < unat (NUM_CORES g) then Some new_d else None) [0, 1],
                 icache_coreid := map (\<lambda>i. if i < unat (NUM_CORES g) then Some new_i else None) [0, 1]\<rparr>)"

text \<open>
  The address of an evicted line as the three callers rebuild it. The locals \<^verbatim>\<open>index\<close>
  and \<^verbatim>\<open>evicted_address\<close> are \<^verbatim>\<open>unsigned\<close>: in \<^verbatim>\<open>memsys_access_modeBC\<close> the shifted tag is
  cut to 32 bits and then joined with the index; in \<^verbatim>\<open>memsys_access_modeDEF\<close> and
  \<^verbatim>\<open>memsys_l2_access\<close> the two are joined on 64 bits and the result is cut to 32 bits,
  which is the same value (\<open>evicted_line_address_joined\<close> below). The result is widened
  again when it is passed on as a line address.
\<close>

definition evicted_line_address :: "Cache \<Rightarrow> u64 \<Rightarrow> u64" where
  "evicted_line_address c line_addr =
     (let index = (ucast (line_addr AND ucast (index_mask c)) :: u32);
          evicted_address =
            (ucast (push_bit (unat (index_bits c)) (tag (lastEvictedLine c))) :: u32);
          evicted_address = evicted_address OR index
      in ucast evicted_address)"

definition memsys_l2_access ::
    "Globals \<Rightarrow> MemorySystem \<Rightarrow> u64 \<Rightarrow> bool \<Rightarrow> u32 \<Rightarrow> (u64 \<times> MemorySystem \<times> Globals) option" where
  "memsys_l2_access g sys line_addr is_writeback core_id =
     (let delay = L2CACHE_HIT_LATENCY
      in case l2cache sys of
           None \<Rightarrow> None
         | Some l2 \<Rightarrow>
             (let (outcome, l2a) = cache_access g l2 line_addr is_writeback core_id
              in if outcome = MISS then
                   (case dram sys of
                      None \<Rightarrow> None
                    | Some d \<Rightarrow>
                        (let (dram_delay, d1) = dram_access g d line_addr False;
                             (l2b, g1) = cache_install g l2a line_addr is_writeback core_id
                         in if valid (lastEvictedLine l2b) \<and> dirty (lastEvictedLine l2b) then
                              (let (wb_delay, d2) =
                                     dram_access g1 d1 (evicted_line_address l2b line_addr) True
                               in Some (delay + dram_delay,
                                        sys\<lparr>l2cache := Some l2b, dram := Some d2\<rparr>, g1))
                            else Some (delay + dram_delay,
                                       sys\<lparr>l2cache := Some l2b, dram := Some d1\<rparr>, g1)))
                 else Some (delay, sys\<lparr>l2cache := Some l2a\<rparr>, g)))"

definition memsys_access_modeA ::
    "Globals \<Rightarrow> MemorySystem \<Rightarrow> u64 \<Rightarrow> AccessType \<Rightarrow> u32 \<Rightarrow> (u64 \<times> MemorySystem \<times> Globals) option" where
  "memsys_access_modeA g sys line_addr type core_id =
     (let needs_dcache_access = (type = ACCESS_TYPE_LOAD \<or> type = ACCESS_TYPE_STORE);
          is_write = (type = ACCESS_TYPE_STORE)
      in if needs_dcache_access then
           (case dcache sys of
              None \<Rightarrow> None
            | Some c \<Rightarrow>
                (let (outcome, c1) = cache_access g c line_addr is_write core_id
                 in if outcome = MISS then
                      (let (c2, g1) = cache_install g c1 line_addr is_write core_id
                       in Some (0, sys\<lparr>dcache := Some c2\<rparr>, g1))
                    else Some (0, sys\<lparr>dcache := Some c1\<rparr>, g)))
         else Some (0, sys, g))"

text \<open>
  Modes B and C. \<^verbatim>\<open>c\<close> points to the instruction cache for a fetch and to the data
  cache for a load or a store; the L2 accesses in between leave that cache alone, so
  its new state is stored back at the end.
\<close>

definition memsys_access_modeBC ::
    "Globals \<Rightarrow> MemorySystem \<Rightarrow> u64 \<Rightarrow> AccessType \<Rightarrow> u32 \<Rightarrow> (u64 \<times> MemorySystem \<times> Globals) option" where
  "memsys_access_modeBC g sys line_addr type core_id =
     (let c_ptr = (case type of ACCESS_TYPE_IFETCH \<Rightarrow> icache sys
                   | ACCESS_TYPE_LOAD \<Rightarrow> dcache sys
                   | ACCESS_TYPE_STORE \<Rightarrow> dcache sys);
          store_back = (\<lambda>sys' c'. case type of
                     ACCESS_TYPE_IFETCH \<Rightarrow> sys'\<lparr>icache := Some c'\<rparr>
                   | ACCESS_TYPE_LOAD \<Rightarrow> sys'\<lparr>dcache := Some c'\<rparr>
                   | ACCESS_TYPE_STORE \<Rightarrow> sys'\<lparr>dcache := Some c'\<rparr>);
          is_write = (type = ACCESS_TYPE_STORE);
          delay = (case type of ACCESS_TYPE_IFETCH \<Rightarrow> ICACHE_HIT_LATENCY
                   | ACCESS_TYPE_LOAD \<Rightarrow> DCACHE_HIT_LATENCY
                   | ACCESS_TYPE_STORE \<Rightarrow> DCACHE_HIT_LATENCY)
      in case c_ptr of
           None \<Rightarrow> None
         | Some c \<Rightarrow>
             (let (outcome, c1) = cache_access g c line_addr is_write core_id
              in if outcome = MISS then
                   (case memsys_l2_access g sys line_addr False core_id of
                      None \<Rightarrow> None
                    | Some (l2_delay, sys1, g1) \<Rightarrow>
                        (let (c2, g2) = cache_install g1 c1 line_addr is_write core_id
                         in if type \<noteq> ACCESS_TYPE_IFETCH \<and>
                               valid (lastEvictedLine c2) \<and> dirty (lastEvictedLine c2) then
                              (case memsys_l2_access g2 sys1 (evicted_line_address c2 line_addr)
                                      True core_id of
                                 None \<Rightarrow> None
                               | Some (wb_delay, sys2, g3) \<Rightarrow>
                                   Some (delay + l2_delay, store_back sys2 c2, g3))
                            else Some (delay + l2_delay, store_back sys1 c2, g2)))
                 else Some (delay, store_back sys c1, g)))"

text \<open>
  Modes D, E and F. \<^verbatim>\<open>offset_bits\<close> is \<open>12 - log2 CACHE_LINESIZE\<close>; a line larger than a
  page would make it negative and the shifts undefined, and so is the logarithm of a
  line size 0. The mask is built on 32 bits.
\<close>

definition memsys_access_modeDEF ::
    "Globals \<Rightarrow> MemorySystem \<Rightarrow> u64 \<Rightarrow> AccessType \<Rightarrow> u32 \<Rightarrow> (u64 \<times> MemorySystem \<times> Globals) option" where
  "memsys_access_modeDEF g sys v_line_addr type core_id =
     (if CACHE_LINESIZE g = 0 \<or> ilog2 PAGE_SIZE < ilog2 (unat (CACHE_LINESIZE g)) then None
      else
       let offset_bits = ilog2 PAGE_SIZE - ilog2 (unat (CACHE_LINESIZE g));
           offset_mask = (ucast (push_bit offset_bits (1 :: u32) - 1) :: u64);
           vfn = drop_bit offset_bits v_line_addr
       in case memsys_convert_vpn_to_pfn g vfn core_id of
            None \<Rightarrow> None
          | Some pfn \<Rightarrow>
             (let p_line_addr = push_bit offset_bits pfn OR (v_line_addr AND offset_mask);
                  c_ptr = (if unat core_id < 2 then
                             (case type of
                                ACCESS_TYPE_IFETCH \<Rightarrow> icache_coreid sys ! unat core_id
                              | ACCESS_TYPE_LOAD \<Rightarrow> dcache_coreid sys ! unat core_id
                              | ACCESS_TYPE_STORE \<Rightarrow> dcache_coreid sys ! unat core_id)
                           else None);
                  store_back = (\<lambda>sys' c'. case type of
                       ACCESS_TYPE_IFETCH \<Rightarrow>
                         sys'\<lparr>icache_coreid := (icache_coreid sys')[unat core_id := Some c']\<rparr>
                     | ACCESS_TYPE_LOAD \<Rightarrow>
                         sys'\<lparr>dcache_coreid := (dcache_coreid sys')[unat core_id := Some c']\<rparr>
                     | ACCESS_TYPE_STORE \<Rightarrow>
                         sys'\<lparr>dcache_coreid := (dcache_coreid sys')[unat core_id := Some c']\<rparr>);
                  is_write = (type = ACCESS_TYPE_STORE);
                  delay = (case type of ACCESS_TYPE_IFETCH \<Rightarrow> ICACHE_HIT_LATENCY
                           | ACCESS_TYPE_LOAD \<Rightarrow> DCACHE_HIT_LATENCY
                           | ACCESS_TYPE_STORE \<Rightarrow> DCACHE_HIT_LATENCY)
              in case c_ptr of
                   None \<Rightarrow> None
                 | Some c \<Rightarrow>
                     (let (outcome, c1) = cache_access g c p_line_addr is_write core_id
                      in if outcome = MISS then
                           (case memsys_l2_access g sys p_line_addr False core_id of
                              None \<Rightarrow> None
                            | Some (l2_delay, sys1, g1) \<Rightarrow>
                                (let (c2, g2) = cache_install g1 c1 p_line_addr is_write core_id
                                 in if type \<noteq> ACCESS_TYPE_IFETCH \<and>
                                       valid (lastEvictedLine c2) \<and> dirty (lastEvictedLine c2) then
                                      (case memsys_l2_access g2 sys1
                                              (evicted_line_address c2 p_line_addr) True core_id of
                                         None \<Rightarrow> None
                                       | Some (wb_delay, sys2, g3) \<Rightarrow>
                                           Some (delay + l2_delay, store_back sys2 c2, g3))
                                    else Some (delay + l2_delay, store_back sys1 c2, g2)))
                         else Some (delay, store_back sys c1, g))))"

text \<open>
  \<^verbatim>\<open>memsys_access\<close>: the byte address becomes a line address, the mode selects the
  path, and the statistics of the access type are updated.
\<close>

definition memsys_access ::
    "Globals \<Rightarrow> MemorySystem \<Rightarrow> u64 \<Rightarrow> AccessType \<Rightarrow> u32 \<Rightarrow> (u64 \<times> MemorySystem \<times> Globals) option" where
  "memsys_access g sys addr type core_id =
     (if CACHE_LINESIZE g = 0 then None
      else
       let line_addr = addr div CACHE_LINESIZE g
       in case (case SIM_MODE g of
                  SIM_MODE_A \<Rightarrow> memsys_access_modeA g sys line_addr type core_id
                | SIM_MODE_B \<Rightarrow> memsys_access_modeBC g sys line_addr type core_id
                | SIM_MODE_C \<Rightarrow> memsys_access_modeBC g sys line_addr type core_id
                | SIM_MODE_DEF \<Rightarrow> memsys_access_modeDEF g sys line_addr type core_id) of
            None \<Rightarrow> None
          | Some (delay, sys1, g1) \<Rightarrow>
              Some (delay,
                    (case type of
                       ACCESS_TYPE_IFETCH \<Rightarrow>
                         sys1\<lparr>stat_ifetch_access := stat_ifetch_access sys1 + 1,
                              stat_ifetch_delay := stat_ifetch_delay sys1 + delay\<rparr>
                     | ACCESS_TYPE_LOAD \<Rightarrow>
                         sys1\<lparr>stat_load_access := stat_load_access sys1 + 1,
                              stat_load_delay := stat_load_delay sys1 + delay\<rparr>
                     | ACCESS_TYPE_STORE \<Rightarrow>
                         sys1\<lparr>stat_store_access := stat_store_access sys1 + 1,
                              stat_store_delay := stat_store_delay sys1 + delay\<rparr>),
                    g1))"

text \<open>
  A driver for the scenarios: the references of a trace in order, each with the value
  of \<open>current_cycle\<close> at which it is issued, its byte address, its access type and its
  core; the other process-wide variables are carried from one reference to the next.
\<close>

fun memsys_run ::
    "Globals \<Rightarrow> MemorySystem \<Rightarrow> (u64 \<times> u64 \<times> AccessType \<times> u32) list \<Rightarrow>
       (MemorySystem \<times> Globals) option" where
  "memsys_run g sys [] = Some (sys, g)"
| "memsys_run g sys ((cycle, addr, type, core_id) # refs) =
     (case memsys_access (g\<lparr>current_cycle := cycle\<rparr>) sys addr type core_id of
        None \<Rightarrow> None
      | Some (delay, sys1, g1) \<Rightarrow> memsys_run g1 sys1 refs)"

text \<open>
  An instance of the process-wide variables for the examples: the defaults the README
  lists (mode A, 64 byte lines, LRU, 32 KB 8-way L1 caches, 512 KB 16-way L2, open
  page, quota 1), one core, cycle 0 and a \<^verbatim>\<open>rand()\<close> that returns 0.
\<close>

definition example_globals :: Globals where
  "example_globals =
     \<lparr>SIM_MODE = SIM_MODE_A, CACHE_LINESIZE = 64, REPL_POLICY = LRU,
      DCACHE_SIZE = 32768, DCACHE_ASSOC = 8, ICACHE_SIZE = 32768, ICACHE_ASSOC = 8,
      L2CACHE_SIZE = 524288, L2CACHE_ASSOC = 16, L2CACHE_REPL = LRU,
      NUM_CORES = 1, DRAM_PAGE_POLICY = OPEN_PAGE, current_cycle = 0,
      SWP_CORE0_WAYS = 1, DWP_CORE0_WAYS = 0,
      rand_tape = (\<lambda>n. 0)\<rparr>"

section \<open>Notions used in the statements\<close>

text \<open>
  The set a line address selects and the tag it carries: the two locals
  \<^verbatim>\<open>set_to_check\<close> and \<^verbatim>\<open>tag_to_check\<close> of \<^verbatim>\<open>cache_access\<close>.
\<close>

definition set_index_of :: "Cache \<Rightarrow> u64 \<Rightarrow> nat" where
  "set_index_of c line_addr = unat (line_addr AND ucast (index_mask c))"

definition tag_of :: "Cache \<Rightarrow> u64 \<Rightarrow> u64" where
  "tag_of c line_addr = drop_bit (unat (index_bits c)) line_addr"

text \<open>
  A well-formed cache: between 1 and \<open>MAX_WAYS_PER_CACHE_SET\<close> ways, at least one set,
  an index mask below the number of sets, and arrays of the allocated lengths. Every
  cache \<^verbatim>\<open>cache_new\<close> builds with at least one set and 1 to 16 ways is well-formed, and
  accesses and installs keep it so (\<open>cache_new_wf\<close>, \<open>cache_wf_access\<close>,
  \<open>cache_wf_install\<close> below).
\<close>

definition cache_wf :: "Cache \<Rightarrow> bool" where
  "cache_wf c \<longleftrightarrow>
     0 < unat (ways c) \<and> unat (ways c) \<le> MAX_WAYS_PER_CACHE_SET \<and>
     0 < unat (sets c) \<and> length (cacheGrid c) = unat (sets c) \<and>
     unat (index_mask c) < unat (sets c) \<and>
     (\<forall>s \<in> set (cacheGrid c).
        length (row s) = unat (ways c) \<and> length (ways_per_core s) = 2 \<and>
        length (totalHits (umon s)) = MAX_WAYS_PER_CACHE_SET)"

text \<open>What a lookup reads of a line: whether it is valid, its owner and its tag.\<close>

definition line_key :: "CacheLine \<Rightarrow> bool \<times> u32 \<times> u64" where
  "line_key l = (valid l, coreID l, tag l)"

text \<open>The way \<^verbatim>\<open>cache_install\<close> is going to overwrite for a line address and a core.\<close>

definition victim_way :: "Globals \<Rightarrow> Cache \<Rightarrow> u64 \<Rightarrow> u32 \<Rightarrow> nat" where
  "victim_way g c A k = fst (cache_find_victim g c (set_index_of c A) k)"

text \<open>The number of ways of a set whose line is valid and belongs to a core.\<close>

definition ways_owned :: "CacheSet \<Rightarrow> u32 \<Rightarrow> nat" where
  "ways_owned s core = length (filter (\<lambda>l. valid l \<and> coreID l = core) (row s))"

definition ways_per_core_ok :: "Cache \<Rightarrow> bool" where
  "ways_per_core_ok c \<longleftrightarrow>
     (\<forall>s \<in> set (cacheGrid c). \<forall>core < 2. unat (ways_per_core s ! unat core) = ways_owned s core)"

definition owners_ok :: "Cache \<Rightarrow> bool" where
  "owners_ok c \<longleftrightarrow> (\<forall>s \<in> set (cacheGrid c). \<forall>l \<in> set (row s). valid l \<longrightarrow> coreID l < 2)"

text \<open>
  The reachable states of a cache: what \<^verbatim>\<open>cache_new\<close> builds (with at least one set
  and 1 to 16 ways, so that no division by zero and no index past \<open>totalHits\<close> occurs),
  and what accesses and installs by the cores 0 and 1 make of a reachable state, under
  any values of the process-wide variables.
\<close>

inductive reachable :: "Cache \<Rightarrow> bool" where
  new: "c = cache_new size_bytes associativity line_size replacement_policy \<Longrightarrow>
        0 < ways c \<Longrightarrow> ways c \<le> 16 \<Longrightarrow> 0 < sets c \<Longrightarrow> reachable c"
| access: "reachable c \<Longrightarrow> core_id < 2 \<Longrightarrow>
        reachable (snd (cache_access g c line_addr is_write core_id))"
| install: "reachable c \<Longrightarrow> core_id < 2 \<Longrightarrow>
        reachable (fst (cache_install g c line_addr is_write core_id))"

text \<open>
  A full 4-way set under SWP for the examples: the ways 0 and 2 belong to core 0, the
  ways 1 and 3 to core 1, and the two lines of core 1 are equally old.
\<close>

definition example_swp_cache :: Cache where
  "example_swp_cache =
     \<lparr>cacheGrid =
        [\<lparr>row = [\<lparr>valid = True, dirty = False, tag = 10, coreID = 0, lastAccessTime = 5\<rparr>,
                 \<lparr>valid = True, dirty = False, tag = 11, coreID = 1, lastAccessTime = 3\<rparr>,
                 \<lparr>valid = True, dirty = False, tag = 12, coreID = 0, lastAccessTime = 2\<rparr>,
                 \<lparr>valid = True, dirty = True, tag = 13, coreID = 1, lastAccessTime = 3\<rparr>],
          ways_per_core = [2, 2],
          umon = \<lparr>totalHits = replicate MAX_WAYS_PER_CACHE_SET 0, totalMisses = 4\<rparr>\<rparr>],
      ways = 4, sets = 1, policy = SWP, lastEvictedLine = zero_line,
      index_mask = 0, index_bits = 0,
      stat_read_access = 3, stat_read_miss = 3,
      stat_write_access = 1, stat_write_miss = 1, stat_dirty_evicts = 0\<rparr>"

text \<open>
  The line with a line address is in the cache for a core: a way of its set is valid,
  belongs to the core and carries its tag.
\<close>

definition line_present :: "Cache \<Rightarrow> u64 \<Rightarrow> u32 \<Rightarrow> bool" where
  "line_present c A k \<longleftrightarrow>
     (\<exists>l \<in> set (row (cacheGrid c ! set_index_of c A)).
        valid l \<and> coreID l = k \<and> tag l = tag_of c A)"

text \<open>
  Operations on one cache, each with the process-wide variables it runs under, and
  what the claims call a conflicting install: an install into the set of the line
  address \<open>A\<close> whose evicted line (\<open>lastEvictedLine\<close>) is the valid line of \<open>A\<close> for the
  core.
\<close>

datatype cache_op = Access Globals u64 bool u32 | Install Globals u64 bool u32

fun apply_op :: "Cache \<Rightarrow> cache_op \<Rightarrow> Cache" where
  "apply_op c (Access g line_addr is_write core_id) =
     snd (cache_access g c line_addr is_write core_id)"
| "apply_op c (Install g line_addr is_write core_id) =
     fst (cache_install g c line_addr is_write core_id)"

fun op_core :: "cache_op \<Rightarrow> u32" where
  "op_core (Access g line_addr is_write core_id) = core_id"
| "op_core (Install g line_addr is_write core_id) = core_id"

fun evicts :: "Cache \<Rightarrow> cache_op \<Rightarrow> u64 \<Rightarrow> u32 \<Rightarrow> bool" where
  "evicts c (Access g line_addr is_write core_id) A k = False"
| "evicts c (Install g line_addr is_write core_id) A k =
     (let e = lastEvictedLine (fst (cache_install g c line_addr is_write core_id))
      in set_index_of c line_addr = set_index_of c A \<and>
         valid e \<and> coreID e = k \<and> tag e = tag_of c A)"

fun no_conflict :: "Cache \<Rightarrow> cache_op list \<Rightarrow> u64 \<Rightarrow> u32 \<Rightarrow> bool" where
  "no_conflict c [] A k = True"
| "no_conflict c (x # xs) A k = (\<not> evicts c x A k \<and> no_conflict (apply_op c x) xs A k)"

text \<open>The configuration of the mode A scenario: a data cache of 64 bytes and one way.\<close>

definition modeA_example :: Globals where
  "modeA_example = example_globals\<lparr>DCACHE_SIZE := 64, DCACHE_ASSOC := 1\<rparr>"

text \<open>The ways of a cache that hold a valid dirty line, as pairs of set and way index.\<close>

definition dirty_ways :: "Cache \<Rightarrow> (nat \<times> nat) set" where
  "dirty_ways c =
     {(si, wi). si < length (cacheGrid c) \<and> wi < length (row (cacheGrid c ! si)) \<and>
                valid (row (cacheGrid c ! si) ! wi) \<and> dirty (row (cacheGrid c ! si) ! wi)}"

text \<open>
  A small configuration in mode C: L1 caches of one set and one way, an L2 cache of
  one set and two ways.
\<close>

definition modeC_example :: Globals where
  "modeC_example =
     example_globals\<lparr>SIM_MODE := SIM_MODE_C, DCACHE_SIZE := 64, DCACHE_ASSOC := 1,
       ICACHE_SIZE := 64, ICACHE_ASSOC := 1, L2CACHE_SIZE := 128, L2CACHE_ASSOC := 2\<rparr>"

text \<open>
  The formulas of the specification, on natural numbers: the utility of a core is the
  integer part of \<open>0.7 * hits + 0.3 * misses\<close>, and the quota is the integer part of
  \<open>utility 0 * W / max (utility 0 + utility 1) 1\<close>, where the hits of a core are the sum of
  \<open>totalHits\<close> over the ways whose line belongs to the core and the misses of both cores
  are \<open>totalMisses\<close> of the set.
\<close>

definition spec_utility :: "nat \<Rightarrow> nat \<Rightarrow> nat" where
  "spec_utility h m = (7 * h + 3 * m) div 10"

definition spec_dwp_quota :: "Cache \<Rightarrow> CacheSet \<Rightarrow> nat" where
  "spec_dwp_quota c s =
     (let hits = (\<lambda>core. sum_list (map (unat \<circ> snd)
                     (filter (\<lambda>(l, h). coreID l = core) (zip (row s) (totalHits (umon s))))));
          utility = (\<lambda>core. spec_utility (hits core) (unat (totalMisses (umon s))))
      in (utility 0 * unat (ways c)) div max (utility 0 + utility 1) 1)"

text \<open>
  A run on a cache of one set and four ways under DWP (256 bytes, 64 byte lines): core
  0 misses on the lines 0 and 1 and core 1 on the lines 2 and 3, each miss followed by
  its install, which fills the set; core 1 misses on the lines 4, 5, 6 and 7 and
  installs them; core 0 hits the line 0 four times, core 1 hits the line 3 nineteen
  times, and core 1 misses on the line 8. \<open>dwp_example_cache\<close> is the cache at that point,
  where \<^verbatim>\<open>cache_install\<close> is about to call \<^verbatim>\<open>cache_find_victim\<close> for the line 8.
\<close>

definition dwp_example_ops :: "cache_op list" where
  "dwp_example_ops =
     (let miss = (\<lambda>line_addr core_id. [Access example_globals line_addr False core_id,
                                         Install example_globals line_addr False core_id]);
          hit = (\<lambda>line_addr core_id. Access example_globals line_addr False core_id)
      in miss 0 0 @ miss 1 0 @ miss 2 1 @ miss 3 1 @
         miss 4 1 @ miss 5 1 @ miss 6 1 @ miss 7 1 @
         replicate 4 (hit 0 0) @ replicate 19 (hit 3 1) @ [hit 8 1])"

definition dwp_example_cache :: Cache where
  "dwp_example_cache = foldl apply_op (cache_new 256 4 64 DWP) dwp_example_ops"

text \<open>
  The row and the bank of a line address as the specification defines them: the row is
  the line address shifted right by \<open>bank_bits\<close>, on the 64 bits of the address, and the
  bank is the row modulo \<open>NUM_BANKS\<close>.
\<close>

definition spec_row :: "DRAM \<Rightarrow> u64 \<Rightarrow> u64" where
  "spec_row d line_addr = drop_bit (unat (bank_bits d)) line_addr"

definition spec_bank :: "DRAM \<Rightarrow> u64 \<Rightarrow> u64" where
  "spec_bank d line_addr = spec_row d line_addr mod of_nat NUM_BANKS"

section \<open>DRAM timing\<close>

lemma ilog2_16: "ilog2 16 = 4"
  by (simp add: ilog2.simps)

lemma bank_bits_dram_new: "bank_bits dram_new = 4"
  by (simp add: dram_new_def ilog2_16)

lemma dram_bank_no_lt: "dram_bank_no d A < NUM_BANKS"
  unfolding dram_bank_no_def
  by (simp add: unat_mod_distrib)

lemma dram_row_no_upd [simp]:
  "dram_row_no (d\<lparr>stat_read_access_dram := x\<rparr>) A = dram_row_no d A"
  "dram_row_no (d\<lparr>stat_read_delay := y\<rparr>) A = dram_row_no d A"
  "dram_row_no (d\<lparr>rowbuf := z\<rparr>) A = dram_row_no d A"
  "dram_bank_no (d\<lparr>stat_read_access_dram := x\<rparr>) A = dram_bank_no d A"
  "dram_bank_no (d\<lparr>stat_read_delay := y\<rparr>) A = dram_bank_no d A"
  "dram_bank_no (d\<lparr>rowbuf := z\<rparr>) A = dram_bank_no d A"
  by (simp_all add: dram_row_no_def dram_bank_no_def)

lemma dram_new_rows:
  "dram_row_no dram_new 80 = 5" "dram_row_no dram_new 112 = 7"
  "dram_row_no dram_new 336 = 21"
  "dram_bank_no dram_new 80 = 5" "dram_bank_no dram_new 112 = 7"
  "dram_bank_no dram_new 336 = 5"
  by (simp_all add: dram_row_no_def dram_bank_no_def bank_bits_dram_new)

lemma unat_ucast_u64_u32: "unat (ucast (x :: u64) :: u32) = unat x mod 2 ^ 32"
  by (simp add: unsigned_ucast_eq take_bit_eq_mod)

lemma unat_mod_2p32: "unat ((x :: u64) mod 4294967296) = unat x mod 2 ^ 32"
  by (simp add: unat_mod_distrib)

lemma unat_ucast_u32_u64: "unat (ucast (m :: u32) :: u64) = unat m"
  by (simp add: unsigned_ucast_eq take_bit_nat_eq_self_iff) (rule less_trans [OF unsigned_less], simp)

lemma row_held:
  "rowID rb = dram_row_no d A \<longleftrightarrow> ucast (rowID rb) = spec_row d A mod 4294967296"
  by (simp add: word_unat_eq_iff [where 'a = 32] word_unat_eq_iff [where 'a = 64]
        unat_ucast_u32_u64 unat_mod_2p32 unat_ucast_u64_u32 dram_row_no_def spec_row_def)

lemma row_kept: "ucast (dram_row_no d A) = spec_row d A mod 4294967296"
  using row_held [of "\<lparr>valid_rb = v, rowID = dram_row_no d A\<rparr>" d A] by simp

lemma dram_bank_no_spec: "dram_bank_no d A = unat (spec_bank d A)"
proof -
  have "(unat (spec_row d A) mod 2 ^ 32) mod 16 = unat (spec_row d A) mod 16"
    by (rule mod_mod_cancel) simp
  then show ?thesis
    by (simp add: dram_bank_no_def spec_bank_def unat_mod_distrib unat_ucast_u64_u32
          dram_row_no_def spec_row_def)
qed

text \<open>
  Claim C5, as stated, fails. In mode C with the open-page policy, after a read of the
  line address 0x50 (row 5, bank 5) on a fresh DRAM, a read of the line address
  0x1000000050 goes to the row 0x100000005 of the same bank 5, whose row buffer is valid
  and holds the row 5, a different row; the claim gives it a delay of 145, the code
  compares the rows on 32 bits, finds them equal and returns 55.
\<close>

theorem dram_row_alias_counterexample:
  "SIM_MODE (example_globals\<lparr>SIM_MODE := SIM_MODE_C\<rparr>) = SIM_MODE_C \<and>
   DRAM_PAGE_POLICY (example_globals\<lparr>SIM_MODE := SIM_MODE_C\<rparr>) = OPEN_PAGE \<and>
   spec_row dram_new 0x50 = 5 \<and> spec_bank dram_new 0x50 = 5 \<and>
   spec_row dram_new 0x1000000050 = 0x100000005 \<and> spec_bank dram_new 0x1000000050 = 5 \<and>
   rowbuf (snd (dram_access (example_globals\<lparr>SIM_MODE := SIM_MODE_C\<rparr>) dram_new 0x50 False)) ! 5
     = \<lparr>valid_rb = True, rowID = 5\<rparr> \<and>
   fst (dram_access (example_globals\<lparr>SIM_MODE := SIM_MODE_C\<rparr>)
         (snd (dram_access (example_globals\<lparr>SIM_MODE := SIM_MODE_C\<rparr>) dram_new 0x50 False))
         0x1000000050 False) = 55 \<and>
   fst (dram_access (example_globals\<lparr>SIM_MODE := SIM_MODE_C\<rparr>)
         (snd (dram_access (example_globals\<lparr>SIM_MODE := SIM_MODE_C\<rparr>) dram_new 0x50 False))
         0x1000000050 False) \<noteq> 145"
  by code_simp

text \<open>
  Claim C5, amended. A DRAM access in modes C, D, E and F (any mode but B) returns the
  bus latency 10 plus: under the open-page policy 45 when the row buffer of the
  addressed bank is valid and holds the requested row modulo \<open>2 ^ 32\<close> (55 in all, buffer
  unchanged), 135 when it is valid with another value (the buffer takes the new row
  modulo \<open>2 ^ 32\<close>), 90 when the bank is idle (the buffer becomes valid with the new row
  modulo \<open>2 ^ 32\<close>); under the close-page policy always 90 (100 in all), and the buffer
  holds the requested row modulo \<open>2 ^ 32\<close> with its valid flag false. The row is the line
  address shifted right by \<open>bank_bits\<close> and the bank is the row modulo 16 (\<open>spec_row\<close>,
  \<open>spec_bank\<close>); the row buffer keeps the row in 32 bits, so a row below \<open>2 ^ 32\<close> is kept as
  it is. The buffers of the other banks are untouched.
\<close>

theorem dram_access_delay:
  assumes "SIM_MODE g \<noteq> SIM_MODE_B" and "length (rowbuf d) = NUM_BANKS"
  shows "let row = spec_row d A; bank = unat (spec_bank d A);
             rb = rowbuf d ! bank;
             (delay, d') = dram_access g d A w;
             rb' = rowbuf d' ! bank
         in (DRAM_PAGE_POLICY g = OPEN_PAGE \<and> valid_rb rb \<and>
               ucast (rowID rb) = row mod 4294967296 \<longrightarrow>
               delay = 10 + 45 \<and> delay = 55 \<and> rb' = rb) \<and>
            (DRAM_PAGE_POLICY g = OPEN_PAGE \<and> valid_rb rb \<and>
               ucast (rowID rb) \<noteq> row mod 4294967296 \<longrightarrow>
               delay = 10 + 135 \<and> valid_rb rb' \<and> ucast (rowID rb') = row mod 4294967296) \<and>
            (DRAM_PAGE_POLICY g = OPEN_PAGE \<and> \<not> valid_rb rb \<longrightarrow>
               delay = 10 + 90 \<and> valid_rb rb' \<and> ucast (rowID rb') = row mod 4294967296) \<and>
            (DRAM_PAGE_POLICY g = CLOSE_PAGE \<longrightarrow>
               delay = 10 + 90 \<and> delay = 100 \<and>
               \<not> valid_rb rb' \<and> ucast (rowID rb') = row mod 4294967296) \<and>
            (row < 4294967296 \<longrightarrow> row mod 4294967296 = row) \<and>
            (\<forall>b. b \<noteq> bank \<longrightarrow> rowbuf d' ! b = rowbuf d ! b) \<and>
            length (rowbuf d') = NUM_BANKS"
proof -
  have small: "spec_row d A < 4294967296 \<longrightarrow> spec_row d A mod 4294967296 = spec_row d A"
    by (simp add: word_mod_less_divisor mod_word_less)
  show ?thesis
    using assms dram_bank_no_lt [of d A] small
    unfolding dram_bank_no_spec [symmetric] row_kept [symmetric]
    by (cases "DRAM_PAGE_POLICY g")
       (auto simp: dram_access_def dram_access_mode_CDEF_def Let_def
          row_kept [symmetric]
          word_unat_eq_iff [where 'a = 64] unat_ucast_u32_u64 simp flip: word_unat_eq_iff [where 'a = 32])
qed


theorem dram_access_delay_witness:
  "fst (dram_access (example_globals\<lparr>SIM_MODE := SIM_MODE_C\<rparr>) dram_new 80 False) = 100 \<and>
   fst (dram_access (example_globals\<lparr>SIM_MODE := SIM_MODE_C\<rparr>)
         (snd (dram_access (example_globals\<lparr>SIM_MODE := SIM_MODE_C\<rparr>) dram_new 80 False))
         80 False) = 55 \<and>
   fst (dram_access (example_globals\<lparr>SIM_MODE := SIM_MODE_C\<rparr>)
         (snd (dram_access (example_globals\<lparr>SIM_MODE := SIM_MODE_C\<rparr>) dram_new 80 False))
         336 True) = 145 \<and>
   fst (dram_access (example_globals\<lparr>SIM_MODE := SIM_MODE_C, DRAM_PAGE_POLICY := CLOSE_PAGE\<rparr>)
         dram_new 80 False) = 100 \<and>
   rowbuf (snd (dram_access
           (example_globals\<lparr>SIM_MODE := SIM_MODE_C, DRAM_PAGE_POLICY := CLOSE_PAGE\<rparr>)
           dram_new 80 False)) ! 5 = \<lparr>valid_rb = False, rowID = 5\<rparr>"
proof -
  let ?g = "example_globals\<lparr>SIM_MODE := SIM_MODE_C\<rparr>"
  let ?h = "example_globals\<lparr>SIM_MODE := SIM_MODE_C, DRAM_PAGE_POLICY := CLOSE_PAGE\<rparr>"
  let ?d = "snd (dram_access ?g dram_new 80 False)"
  have m: "SIM_MODE ?g \<noteq> SIM_MODE_B" "SIM_MODE ?h \<noteq> SIM_MODE_B"
    by (simp_all add: example_globals_def)
  have p: "DRAM_PAGE_POLICY ?g = OPEN_PAGE" "DRAM_PAGE_POLICY ?h = CLOSE_PAGE"
    by (simp_all add: example_globals_def)
  have l: "length (rowbuf dram_new) = NUM_BANKS" "length (rowbuf ?d) = NUM_BANKS"
    by code_simp+
  have r: "spec_row dram_new 80 = 5" "unat (spec_bank dram_new 80) = 5"
    "spec_row ?d 80 = 5" "unat (spec_bank ?d 80) = 5"
    "spec_row ?d 336 = 21" "unat (spec_bank ?d 336) = 5"
    by code_simp+
  have b: "rowbuf dram_new ! 5 = \<lparr>valid_rb = False, rowID = 0\<rparr>"
    "rowbuf ?d ! 5 = \<lparr>valid_rb = True, rowID = 5\<rparr>"
    by code_simp+
  note t1 = dram_access_delay [OF m(1) l(1), of 80 False, unfolded Let_def r b case_prod_unfold]
  note t2 = dram_access_delay [OF m(1) l(2), of 80 False, unfolded Let_def r b case_prod_unfold]
  note t3 = dram_access_delay [OF m(1) l(2), of 336 True, unfolded Let_def r b case_prod_unfold]
  note t4 = dram_access_delay [OF m(2) l(1), of 80 False, unfolded Let_def r b case_prod_unfold]
  have "fst (dram_access ?g dram_new 80 False) = 100" using t1 p(1) by simp
  moreover have "fst (dram_access ?g ?d 80 False) = 55" using t2 p(1) by simp
  moreover have "fst (dram_access ?g ?d 336 True) = 145" using t3 p(1) by simp
  moreover have "fst (dram_access ?h dram_new 80 False) = 100" using t4 p(2) by simp
  moreover have "rowbuf (snd (dram_access ?h dram_new 80 False)) ! 5 =
      \<lparr>valid_rb = False, rowID = 5\<rparr>"
  proof -
    from t4 p(2) have "\<not> valid_rb (rowbuf (snd (dram_access ?h dram_new 80 False)) ! 5)"
      "(ucast (rowID (rowbuf (snd (dram_access ?h dram_new 80 False)) ! 5)) :: u64) = 5"
      by simp_all
    moreover have "(ucast (5 :: u32) :: u64) = 5" by simp
    ultimately have "\<not> valid_rb (rowbuf (snd (dram_access ?h dram_new 80 False)) ! 5)"
      "rowID (rowbuf (snd (dram_access ?h dram_new 80 False)) ! 5) = 5"
      by (simp_all add: word_unat_eq_iff [where 'a = 64] word_unat_eq_iff [where 'a = 32]
            unat_ucast_u32_u64)
    then show ?thesis
      by (cases "rowbuf (snd (dram_access ?h dram_new 80 False)) ! 5") simp
  qed
  ultimately show ?thesis by blast
qed

lemma dram_reads_rows:
  assumes "SIM_MODE g = SIM_MODE_C" and "DRAM_PAGE_POLICY g = OPEN_PAGE"
    and "dram_row_no dram_new a1 = r" and "dram_row_no dram_new a2 = r"
    and "dram_row_no dram_new a3 = r'" and "dram_row_no dram_new a4 = r"
    and "r' \<noteq> r"
  shows "dram_reads g dram_new [a1, a2, a3, a4] =
           (if dram_bank_no dram_new a3 = dram_bank_no dram_new a1
            then [100, 55, 145, 145] else [100, 55, 100, 55])"
proof -
  have b: "dram_bank_no dram_new a2 = dram_bank_no dram_new a1"
     "dram_bank_no dram_new a4 = dram_bank_no dram_new a1"
    using assms by (simp_all add: dram_bank_no_def)
  have l: "dram_bank_no dram_new a1 < NUM_BANKS" "dram_bank_no dram_new a3 < NUM_BANKS"
    by (rule dram_bank_no_lt)+
  have rb: "rowbuf dram_new = replicate NUM_BANKS \<lparr>valid_rb = False, rowID = 0\<rparr>"
    by (simp add: dram_new_def)
  show ?thesis
    using assms b l
    by (simp add: dram_access_def dram_access_mode_CDEF_def rb)
qed

text \<open>
  Claim C6, as stated, fails. In mode C with the open-page policy and a fresh DRAM, the
  line addresses 80, 80, 112, 80 have the row numbers 5, 5, 7, 5; the bank is the row
  modulo 16, so the rows 5 and 7 lie in the banks 5 and 7, not in one bank, and the four
  reads take 100, 55, 100 and 55 cycles, not 100, 55, 145 and 145.
\<close>

theorem dram_rows_5_5_7_5_counterexample:
  "SIM_MODE (example_globals\<lparr>SIM_MODE := SIM_MODE_C\<rparr>) = SIM_MODE_C \<and>
   DRAM_PAGE_POLICY (example_globals\<lparr>SIM_MODE := SIM_MODE_C\<rparr>) = OPEN_PAGE \<and>
   map (dram_row_no dram_new) [80, 80, 112, 80] = [5, 5, 7, 5] \<and>
   map (dram_bank_no dram_new) [80, 80, 112, 80] = [5, 5, 7, 5] \<and>
   dram_reads (example_globals\<lparr>SIM_MODE := SIM_MODE_C\<rparr>) dram_new [80, 80, 112, 80]
     = [100, 55, 100, 55] \<and>
   dram_reads (example_globals\<lparr>SIM_MODE := SIM_MODE_C\<rparr>) dram_new [80, 80, 112, 80]
     \<noteq> [100, 55, 145, 145]"
proof -
  have "dram_reads (example_globals\<lparr>SIM_MODE := SIM_MODE_C\<rparr>) dram_new [80, 80, 112, 80]
     = [100, 55, 100, 55]"
    by (subst dram_reads_rows [where r = 5 and r' = 7])
       (simp_all add: dram_new_rows example_globals_def)
  then show ?thesis
    by (simp add: dram_new_rows example_globals_def)
qed

lemma dram_reads_cases:
  assumes "SIM_MODE g = SIM_MODE_C" and "DRAM_PAGE_POLICY g = OPEN_PAGE"
    and "dram_row_no dram_new a1 = r" and "dram_row_no dram_new a2 = r"
    and "dram_row_no dram_new a3 = r'" and "dram_row_no dram_new a4 = r"
  shows "dram_reads g dram_new [a1, a2, a3, a4] =
           (if r' = r then [100, 55, 55, 55]
            else if dram_bank_no dram_new a3 = dram_bank_no dram_new a1
            then [100, 55, 145, 145] else [100, 55, 100, 55])"
proof -
  have b: "dram_bank_no dram_new a2 = dram_bank_no dram_new a1"
     "dram_bank_no dram_new a4 = dram_bank_no dram_new a1"
     "r' = r \<Longrightarrow> dram_bank_no dram_new a3 = dram_bank_no dram_new a1"
    using assms by (simp_all add: dram_bank_no_def)
  have l: "dram_bank_no dram_new a1 < NUM_BANKS" "dram_bank_no dram_new a3 < NUM_BANKS"
    by (rule dram_bank_no_lt)+
  have rb: "rowbuf dram_new = replicate NUM_BANKS \<lparr>valid_rb = False, rowID = 0\<rparr>"
    by (simp add: dram_new_def)
  show ?thesis
    using assms b l
    by (simp add: dram_access_def dram_access_mode_CDEF_def rb)
qed

lemma rows_mod:
  fixes r r' :: u64
  shows "(ucast r :: u32) = ucast r' \<longleftrightarrow> r mod 4294967296 = r' mod 4294967296"
    and "unat (r mod 16) = unat (r' mod 16) \<longleftrightarrow> r mod 16 = r' mod 16"
  by (simp_all add: word_unat_eq_iff [where 'a = 32] word_unat_eq_iff [where 'a = 64]
        unat_mod_2p32 unat_ucast_u64_u32)


text \<open>
  Claim C6, amended. In mode C with the open-page policy and a fresh DRAM, four reads
  whose rows are 5, 5, 7, 5 fall into the banks 5, 5, 7, 5 (the bank is the row modulo
  16) and take 100, 55, 100 and 55 cycles. Four reads whose rows are \<open>r, r, r', r\<close> take
  100, 55, 145 and 145 cycles when the two rows lie in a single bank (\<open>r\<close> and \<open>r'\<close> are
  equal modulo 16, as 5 and 21 are) and differ modulo \<open>2 ^ 32\<close>; they take 100, 55, 100 and
  55 cycles when the rows lie in two banks, and 100, 55, 55 and 55 cycles when the rows
  are equal modulo \<open>2 ^ 32\<close>.
\<close>

theorem dram_reads_two_rows:
  assumes "SIM_MODE g = SIM_MODE_C" and "DRAM_PAGE_POLICY g = OPEN_PAGE"
    and "map (spec_row dram_new) [a1, a2, a3, a4] = [r, r, r', r]"
  shows "(r = 5 \<and> r' = 7 \<longrightarrow>
            map (spec_bank dram_new) [a1, a2, a3, a4] = [5, 5, 7, 5] \<and>
            dram_reads g dram_new [a1, a2, a3, a4] = [100, 55, 100, 55]) \<and>
         (r' mod 16 = r mod 16 \<and> r' mod 4294967296 \<noteq> r mod 4294967296 \<longrightarrow>
            dram_reads g dram_new [a1, a2, a3, a4] = [100, 55, 145, 145]) \<and>
         (r' mod 16 \<noteq> r mod 16 \<longrightarrow>
            dram_reads g dram_new [a1, a2, a3, a4] = [100, 55, 100, 55]) \<and>
         (r' mod 4294967296 = r mod 4294967296 \<longrightarrow>
            dram_reads g dram_new [a1, a2, a3, a4] = [100, 55, 55, 55])"
proof -
  have rows: "spec_row dram_new a1 = r" "spec_row dram_new a2 = r"
    "spec_row dram_new a3 = r'" "spec_row dram_new a4 = r"
    using assms(3) by simp_all
  have n: "dram_row_no dram_new a1 = ucast r" "dram_row_no dram_new a2 = ucast r"
    "dram_row_no dram_new a3 = ucast r'" "dram_row_no dram_new a4 = ucast r"
    using rows by (simp_all add: dram_row_no_def spec_row_def)
  have k: "dram_bank_no dram_new a3 = dram_bank_no dram_new a1 \<longleftrightarrow> r' mod 16 = r mod 16"
    unfolding dram_bank_no_spec spec_bank_def rows by (simp add: rows_mod(2))
  have e: "(ucast r' :: u32) = ucast r \<longleftrightarrow> r' mod 4294967296 = r mod 4294967296"
    by (rule rows_mod(1))
  have g: "dram_reads g dram_new [a1, a2, a3, a4] =
           (if r' mod 4294967296 = r mod 4294967296 then [100, 55, 55, 55]
            else if r' mod 16 = r mod 16 then [100, 55, 145, 145] else [100, 55, 100, 55])"
    using dram_reads_cases [OF assms(1,2) n] unfolding k e .
  have d: "r' mod 16 \<noteq> r mod 16 \<Longrightarrow> r' mod 4294967296 \<noteq> r mod 4294967296"
  proof
    assume a: "r' mod 16 \<noteq> r mod 16" "r' mod 4294967296 = r mod 4294967296"
    have "unat r' mod 2 ^ 32 mod 16 = unat r' mod 16" "unat r mod 2 ^ 32 mod 16 = unat r mod 16"
      by (rule mod_mod_cancel, simp)+
    moreover from a(2) have "unat r' mod 2 ^ 32 = unat r mod 2 ^ 32"
      by (simp add: word_unat_eq_iff [where 'a = 64] unat_mod_2p32)
    ultimately have "unat r' mod 16 = unat r mod 16" by simp
    with a(1) show False
      by (simp add: word_unat_eq_iff [where 'a = 64] unat_mod_distrib)
  qed
  have "r = 5 \<and> r' = 7 \<longrightarrow>
           map (spec_bank dram_new) [a1, a2, a3, a4] = [5, 5, 7, 5] \<and>
           dram_reads g dram_new [a1, a2, a3, a4] = [100, 55, 100, 55]"
    using rows g by (auto simp add: spec_bank_def)
  then show ?thesis using g d by auto
qed

theorem dram_reads_two_rows_witness:
  "map (spec_row dram_new) [80, 80, 112, 80] = [5, 5, 7, 5] \<and>
   dram_reads (example_globals\<lparr>SIM_MODE := SIM_MODE_C\<rparr>) dram_new [80, 80, 112, 80]
     = [100, 55, 100, 55] \<and>
   map (spec_row dram_new) [80, 80, 336, 80] = [5, 5, 21, 5] \<and>
   dram_reads (example_globals\<lparr>SIM_MODE := SIM_MODE_C\<rparr>) dram_new [80, 80, 336, 80]
     = [100, 55, 145, 145] \<and>
   map (spec_row dram_new) [0x50, 0x50, 0x1000000050, 0x50] = [5, 5, 0x100000005, 5] \<and>
   dram_reads (example_globals\<lparr>SIM_MODE := SIM_MODE_C\<rparr>) dram_new
     [0x50, 0x50, 0x1000000050, 0x50] = [100, 55, 55, 55]"
proof -
  let ?g = "example_globals\<lparr>SIM_MODE := SIM_MODE_C\<rparr>"
  have m: "SIM_MODE ?g = SIM_MODE_C" "DRAM_PAGE_POLICY ?g = OPEN_PAGE"
    by (simp_all add: example_globals_def)
  have r: "map (spec_row dram_new) [80, 80, 112, 80] = [5, 5, 7, 5]"
    "map (spec_row dram_new) [80, 80, 336, 80] = [5, 5, 21, 5]"
    "map (spec_row dram_new) [0x50, 0x50, 0x1000000050, 0x50] = [5, 5, 0x100000005, 5]"
    by code_simp+
  have c: "(21 :: u64) mod 16 = 5 mod 16" "(21 :: u64) mod 4294967296 \<noteq> 5 mod 4294967296"
    "(0x100000005 :: u64) mod 4294967296 = 5 mod 4294967296"
    by code_simp+
  from dram_reads_two_rows [OF m r(1)] dram_reads_two_rows [OF m r(2)]
    dram_reads_two_rows [OF m r(3)] r c
  show ?thesis by blast
qed

section \<open>Address translation\<close>

lemma u32_less_2: "(c::u32) < 2 \<Longrightarrow> c = 0 \<or> c = 1"
  by unat_arith

lemma and_fffff: "(v::u64) AND 0xfffff = take_bit 20 v"
  by (simp add: take_bit_eq_mask mask_eq_exp_minus_1)

lemma unat_pfn:
  "unat (take_bit 20 (v::u64) + x + push_bit 21 (drop_bit 20 v)) =
     (unat v mod 2 ^ 20 + unat x + (unat v div 2 ^ 20) * 2 ^ 21) mod 2 ^ 64"
proof -
  have 1: "unat (take_bit 20 v) = unat v mod 2 ^ 20"
    unfolding unsigned_take_bit_eq by (simp add: take_bit_eq_mod)
  have 2: "unat (push_bit 21 (drop_bit 20 v)) = ((unat v div 2 ^ 20) * 2 ^ 21) mod 2 ^ 64"
    by (simp add: push_bit_eq_mult drop_bit_eq_div unat_word_ariths unat_div mod_simps)
  show ?thesis
    unfolding unat_word_ariths 1 2
    by (simp add: mod_simps)
qed

text \<open>
  Claim C8. With two cores configured (the function asserts it) and \<open>core_id\<close> 0 or 1,
  \<open>memsys_convert_vpn_to_pfn\<close> returns \<open>(vpn & 0x000FFFFF) + (core_id << 21) +
  ((vpn >> 20) << 21)\<close>, the sum taken on 64 bits; \<open>vpn_to_pfn(0, 0) = 0\<close> and
  \<open>vpn_to_pfn(0, 1) = 0x200000\<close>; and no frame core 0 receives for a VPN below \<open>2^20\<close>
  is a frame core 1 receives for a VPN below \<open>2^20\<close>.
\<close>

theorem vpn_to_pfn:
  assumes "NUM_CORES g = 2" and "core_id < 2"
  shows "(\<exists>pfn. memsys_convert_vpn_to_pfn g vpn core_id = Some pfn \<and>
           pfn = (vpn AND 0x000FFFFF) + push_bit 21 (ucast core_id) + push_bit 21 (drop_bit 20 vpn) \<and>
           unat pfn = (unat vpn mod 2 ^ 20 + unat core_id * 2 ^ 21
                        + (unat vpn div 2 ^ 20) * 2 ^ 21) mod 2 ^ 64) \<and>
    memsys_convert_vpn_to_pfn g 0 0 = Some 0 \<and>
    memsys_convert_vpn_to_pfn g 0 1 = Some 0x200000 \<and>
    (\<forall>v0 v1. v0 < 2 ^ 20 \<and> v1 < 2 ^ 20 \<longrightarrow>
           memsys_convert_vpn_to_pfn g v0 0 \<noteq> memsys_convert_vpn_to_pfn g v1 1)"
proof (intro conjI)
  from assms(2) have c: "core_id = 0 \<or> core_id = 1"
    by (rule u32_less_2)
  show "\<exists>pfn. memsys_convert_vpn_to_pfn g vpn core_id = Some pfn \<and>
           pfn = (vpn AND 0x000FFFFF) + push_bit 21 (ucast core_id) + push_bit 21 (drop_bit 20 vpn) \<and>
           unat pfn = (unat vpn mod 2 ^ 20 + unat core_id * 2 ^ 21
                        + (unat vpn div 2 ^ 20) * 2 ^ 21) mod 2 ^ 64"
    using c assms(1) unat_pfn [of vpn "0"] unat_pfn [of vpn "2097152"]
    by (auto simp add: memsys_convert_vpn_to_pfn_def and_fffff)
  show "memsys_convert_vpn_to_pfn g 0 0 = Some 0"
    using assms(1) by (simp add: memsys_convert_vpn_to_pfn_def)
  show "memsys_convert_vpn_to_pfn g 0 1 = Some 0x200000"
    using assms(1) by (simp add: memsys_convert_vpn_to_pfn_def)
  show "\<forall>v0 v1. v0 < 2 ^ 20 \<and> v1 < 2 ^ 20 \<longrightarrow>
           memsys_convert_vpn_to_pfn g v0 0 \<noteq> memsys_convert_vpn_to_pfn g v1 1"
  proof (intro allI impI)
    fix v0 v1 :: u64
    assume a: "v0 < 2 ^ 20 \<and> v1 < 2 ^ 20"
    then have n: "unat v0 < 2 ^ 20" "unat v1 < 2 ^ 20"
      by (simp_all add: word_less_nat_alt)
    have "unat (take_bit 20 v0 + 0 + push_bit 21 (drop_bit 20 v0)) \<noteq>
          unat (take_bit 20 v1 + 2097152 + push_bit 21 (drop_bit 20 v1))"
      unfolding unat_pfn using n by simp
    then show "memsys_convert_vpn_to_pfn g v0 0 \<noteq> memsys_convert_vpn_to_pfn g v1 1"
      using assms(1) by (auto simp add: memsys_convert_vpn_to_pfn_def and_fffff)
  qed
qed

theorem vpn_to_pfn_witness:
  "memsys_convert_vpn_to_pfn (example_globals\<lparr>NUM_CORES := 2\<rparr>) 0x100003 1 = Some 0x400003 \<and>
   memsys_convert_vpn_to_pfn (example_globals\<lparr>NUM_CORES := 2\<rparr>) 0 0 = Some 0 \<and>
   memsys_convert_vpn_to_pfn (example_globals\<lparr>NUM_CORES := 2\<rparr>) 0 1 = Some 0x200000 \<and>
   memsys_convert_vpn_to_pfn (example_globals\<lparr>NUM_CORES := 2\<rparr>) 5 0
     \<noteq> memsys_convert_vpn_to_pfn (example_globals\<lparr>NUM_CORES := 2\<rparr>) 5 1"
  using vpn_to_pfn [of "example_globals\<lparr>NUM_CORES := 2\<rparr>" 1 "0x100003"]
  by (simp add: example_globals_def memsys_convert_vpn_to_pfn_def)

section \<open>The loops of the cache\<close>

lemma find_hit_Some:
  "find_hit ls i k t = Some j \<Longrightarrow>
     \<exists>n < length ls. j = i + n \<and> valid (ls ! n) \<and> coreID (ls ! n) = k \<and> tag (ls ! n) = t"
proof (induction ls arbitrary: i)
  case Nil
  then show ?case by simp
next
  case (Cons l ls)
  show ?case
  proof (cases "valid l = True \<and> coreID l = k \<and> tag l = t")
    case True
    with Cons.prems show ?thesis by (intro exI [of _ 0]) auto
  next
    case False
    with Cons.prems have "find_hit ls (Suc i) k t = Some j" by auto
    from Cons.IH [OF this] obtain n where "n < length ls" "j = Suc i + n"
      "valid (ls ! n)" "coreID (ls ! n) = k" "tag (ls ! n) = t" by blast
    then show ?thesis by (intro exI [of _ "Suc n"]) simp
  qed
qed

lemma find_hit_None:
  "find_hit ls i k t = None \<longleftrightarrow> (\<forall>l \<in> set ls. \<not> (valid l \<and> coreID l = k \<and> tag l = t))"
  by (induction ls arbitrary: i) auto

lemma find_hit_cong:
  "map (\<lambda>l. (valid l, coreID l, tag l)) ls = map (\<lambda>l. (valid l, coreID l, tag l)) ls' \<Longrightarrow>
     find_hit ls i k t = find_hit ls' i k t"
proof (induction ls arbitrary: ls' i)
  case Nil
  then show ?case by simp
next
  case (Cons l ls)
  then obtain l' ms where "ls' = l' # ms" by (cases ls') auto
  with Cons show ?case by auto
qed

lemma first_invalid_Some:
  "first_invalid ls i = Some j \<Longrightarrow> \<exists>n < length ls. j = i + n \<and> \<not> valid (ls ! n)"
proof (induction ls arbitrary: i)
  case Nil
  then show ?case by simp
next
  case (Cons l ls)
  show ?case
  proof (cases "valid l")
    case False
    with Cons.prems show ?thesis by (intro exI [of _ 0]) auto
  next
    case True
    with Cons.prems have "first_invalid ls (Suc i) = Some j" by auto
    from Cons.IH [OF this] obtain n where "n < length ls" "j = Suc i + n" "\<not> valid (ls ! n)"
      by blast
    then show ?thesis by (intro exI [of _ "Suc n"]) simp
  qed
qed

lemma first_invalid_None:
  "first_invalid ls i = None \<longleftrightarrow> (\<forall>l \<in> set ls. valid l)"
  by (induction ls arbitrary: i) auto

lemma lru_scan_index:
  "lru_scan ls i (index, t) = (index', t') \<Longrightarrow>
     index' = index \<or> (i \<le> index' \<and> index' < i + length ls)"
proof (induction ls arbitrary: i index t)
  case Nil
  then show ?case by simp
next
  case (Cons l ls)
  show ?case
  proof (cases "lastAccessTime l < t")
    case True
    with Cons.prems have "lru_scan ls (Suc i) (i, lastAccessTime l) = (index', t')" by simp
    from Cons.IH [OF this] show ?thesis by auto
  next
    case False
    with Cons.prems have "lru_scan ls (Suc i) (index, t) = (index', t')" by simp
    from Cons.IH [OF this] show ?thesis by auto
  qed
qed

lemma first_of_core_Some:
  "first_of_core ls i k = Some j \<Longrightarrow>
     \<exists>n < length ls. j = i + n \<and> coreID (ls ! n) = k \<and> (\<forall>m < n. coreID (ls ! m) \<noteq> k)"
proof (induction ls arbitrary: i)
  case Nil
  then show ?case by simp
next
  case (Cons l ls)
  show ?case
  proof (cases "coreID l = k")
    case True
    with Cons.prems show ?thesis by (intro exI [of _ 0]) auto
  next
    case False
    with Cons.prems have "first_of_core ls (Suc i) k = Some j" by auto
    from Cons.IH [OF this] obtain n where n: "n < length ls" "j = Suc i + n"
      "coreID (ls ! n) = k" "\<forall>m < n. coreID (ls ! m) \<noteq> k" by blast
    have "\<forall>m < Suc n. coreID ((l # ls) ! m) \<noteq> k"
      using n(4) False by (auto simp add: nth_Cons split: nat.splits)
    with n show ?thesis by (intro exI [of _ "Suc n"]) simp
  qed
qed

lemma first_of_core_None:
  "first_of_core ls i k = None \<longleftrightarrow> (\<forall>l \<in> set ls. coreID l \<noteq> k)"
  by (induction ls arbitrary: i) auto

text \<open>The second loop of SWP and DWP: what it returns, given what it starts from.\<close>

lemma oldest_of_core_spec:
  "oldest_of_core ls i k (index, t) = (index', t') \<Longrightarrow>
     (index' = index \<and> t' = t \<and>
        (\<forall>m < length ls. coreID (ls ! m) = k \<longrightarrow> t \<le> lastAccessTime (ls ! m))) \<or>
     (\<exists>n < length ls. index' = i + n \<and> coreID (ls ! n) = k \<and>
        t' = lastAccessTime (ls ! n) \<and> t' < t \<and>
        (\<forall>m < length ls. coreID (ls ! m) = k \<longrightarrow>
           t' \<le> lastAccessTime (ls ! m) \<and> (lastAccessTime (ls ! m) = t' \<longrightarrow> n \<le> m)))"
proof (induction ls arbitrary: i index t)
  case Nil
  then show ?case by simp
next
  case (Cons l ls)
  show ?case
  proof (cases "coreID l = k \<and> lastAccessTime l < t")
    case True
    with Cons.prems
    have "oldest_of_core ls (Suc i) k (i, lastAccessTime l) = (index', t')" by simp
    from Cons.IH [OF this] show ?thesis
    proof (elim disjE exE conjE)
      assume a: "index' = i" "t' = lastAccessTime l"
        "\<forall>m < length ls. coreID (ls ! m) = k \<longrightarrow> lastAccessTime l \<le> lastAccessTime (ls ! m)"
      have "\<forall>m < length (l # ls). coreID ((l # ls) ! m) = k \<longrightarrow>
           t' \<le> lastAccessTime ((l # ls) ! m) \<and> (lastAccessTime ((l # ls) ! m) = t' \<longrightarrow> 0 \<le> m)"
        using a by (auto simp add: nth_Cons split: nat.splits)
      with a True show ?thesis
        by (intro disjI2 exI [of _ 0]) simp
    next
      fix n
      assume a: "n < length ls" "index' = Suc i + n" "coreID (ls ! n) = k"
        "t' = lastAccessTime (ls ! n)" "t' < lastAccessTime l"
        "\<forall>m < length ls. coreID (ls ! m) = k \<longrightarrow>
           t' \<le> lastAccessTime (ls ! m) \<and> (lastAccessTime (ls ! m) = t' \<longrightarrow> n \<le> m)"
      have "\<forall>m < length (l # ls). coreID ((l # ls) ! m) = k \<longrightarrow>
           t' \<le> lastAccessTime ((l # ls) ! m) \<and>
           (lastAccessTime ((l # ls) ! m) = t' \<longrightarrow> Suc n \<le> m)"
        using a by (auto simp add: nth_Cons split: nat.splits)
      moreover have "t' < t" using a(5) True less_trans by blast
      ultimately show ?thesis
        using a by (intro disjI2 exI [of _ "Suc n"]) simp
    qed
  next
    case False
    with Cons.prems
    have "oldest_of_core ls (Suc i) k (index, t) = (index', t')" by auto
    from Cons.IH [OF this] show ?thesis
    proof (elim disjE exE conjE)
      assume a: "index' = index" "t' = t"
        "\<forall>m < length ls. coreID (ls ! m) = k \<longrightarrow> t \<le> lastAccessTime (ls ! m)"
      have "\<forall>m < length (l # ls). coreID ((l # ls) ! m) = k \<longrightarrow> t \<le> lastAccessTime ((l # ls) ! m)"
        using a False by (auto simp add: nth_Cons split: nat.splits)
      with a show ?thesis by simp
    next
      fix n
      assume a: "n < length ls" "index' = Suc i + n" "coreID (ls ! n) = k"
        "t' = lastAccessTime (ls ! n)" "t' < t"
        "\<forall>m < length ls. coreID (ls ! m) = k \<longrightarrow>
           t' \<le> lastAccessTime (ls ! m) \<and> (lastAccessTime (ls ! m) = t' \<longrightarrow> n \<le> m)"
      have "\<forall>m < length (l # ls). coreID ((l # ls) ! m) = k \<longrightarrow>
           t' \<le> lastAccessTime ((l # ls) ! m) \<and>
           (lastAccessTime ((l # ls) ! m) = t' \<longrightarrow> Suc n \<le> m)"
        using a False by (auto simp add: nth_Cons split: nat.splits)
      then show ?thesis
        using a by (intro disjI2 exI [of _ "Suc n"]) simp
    qed
  qed
qed

text \<open>The two loops together pick the oldest line of the core, the first one among equals.\<close>

lemma way_of_core_spec:
  assumes "\<exists>l \<in> set r. coreID l = k"
  shows "way_of_core r k < length r \<and> coreID (r ! way_of_core r k) = k \<and>
         (\<forall>j < length r. coreID (r ! j) = k \<longrightarrow>
            lastAccessTime (r ! way_of_core r k) \<le> lastAccessTime (r ! j) \<and>
            (lastAccessTime (r ! j) = lastAccessTime (r ! way_of_core r k) \<longrightarrow>
               way_of_core r k \<le> j))"
proof -
  from assms obtain i0 where f: "first_of_core r 0 k = Some i0"
    using first_of_core_None [of r 0 k] by (cases "first_of_core r 0 k") auto
  from first_of_core_Some [OF f]
  have i0: "i0 < length r" "coreID (r ! i0) = k" "\<forall>m < i0. coreID (r ! m) \<noteq> k"
    by auto
  obtain v t' where o: "oldest_of_core (drop i0 r) i0 k (i0, lastAccessTime (r ! i0)) = (v, t')"
    by (cases "oldest_of_core (drop i0 r) i0 k (i0, lastAccessTime (r ! i0))")
  have w: "way_of_core r k = v"
    by (simp add: way_of_core_def f o)
  have before: "j < i0 \<Longrightarrow> coreID (r ! j) \<noteq> k" for j
    using i0(3) by simp
  from oldest_of_core_spec [OF o]
  show ?thesis
  proof (elim disjE exE conjE)
    assume a: "v = i0" "t' = lastAccessTime (r ! i0)"
      "\<forall>m < length (drop i0 r). coreID (drop i0 r ! m) = k \<longrightarrow>
          lastAccessTime (r ! i0) \<le> lastAccessTime (drop i0 r ! m)"
    have "lastAccessTime (r ! i0) \<le> lastAccessTime (r ! j) \<and>
          (lastAccessTime (r ! j) = lastAccessTime (r ! i0) \<longrightarrow> i0 \<le> j)"
      if j: "j < length r" "coreID (r ! j) = k" for j
    proof -
      have ge: "i0 \<le> j" using before [of j] j(2) by (cases "j < i0") auto
      then have "drop i0 r ! (j - i0) = r ! j" using j(1) by simp
      moreover have "j - i0 < length (drop i0 r)" using ge j(1) i0(1) by simp
      ultimately show ?thesis using a(3) j(2) ge by metis
    qed
    with a i0 w show ?thesis by simp
  next
    fix n
    assume a: "n < length (drop i0 r)" "v = i0 + n" "coreID (drop i0 r ! n) = k"
      "t' = lastAccessTime (drop i0 r ! n)"
      "\<forall>m < length (drop i0 r). coreID (drop i0 r ! m) = k \<longrightarrow>
          t' \<le> lastAccessTime (drop i0 r ! m) \<and>
          (lastAccessTime (drop i0 r ! m) = t' \<longrightarrow> n \<le> m)"
    have v: "v < length r" "r ! v = drop i0 r ! n"
      using a(1,2) by (simp_all add: add.commute)
    have "lastAccessTime (r ! v) \<le> lastAccessTime (r ! j) \<and>
          (lastAccessTime (r ! j) = lastAccessTime (r ! v) \<longrightarrow> v \<le> j)"
      if j: "j < length r" "coreID (r ! j) = k" for j
    proof -
      have ge: "i0 \<le> j" using before [of j] j(2) by (cases "j < i0") auto
      then have e: "drop i0 r ! (j - i0) = r ! j" using j(1) by simp
      have l: "j - i0 < length (drop i0 r)" using ge j(1) i0(1) by simp
      from a(5) [rule_format, OF l] e j(2)
      have "t' \<le> lastAccessTime (r ! j) \<and> (lastAccessTime (r ! j) = t' \<longrightarrow> n \<le> j - i0)"
        by simp
      then show ?thesis using a(2,4) v(2) ge by auto
    qed
    with a v w show ?thesis by simp
  qed
qed

lemma way_of_core_lt: "r \<noteq> [] \<Longrightarrow> way_of_core r k < length r"
proof (cases "\<exists>l \<in> set r. coreID l = k")
  case True
  then show ?thesis using way_of_core_spec [of r k] by simp
next
  case False
  assume "r \<noteq> []"
  moreover from False have "first_of_core r 0 k = None"
    by (simp add: first_of_core_None)
  ultimately show ?thesis by (simp add: way_of_core_def)
qed

lemma set_index_le_mask: "set_index_of c A \<le> unat (index_mask c)"
  unfolding set_index_of_def
  using word_and_le1 [of A "ucast (index_mask c)"]
  by (simp add: word_le_nat_alt unat_ucast_u32_u64)

lemma set_index_lt: "cache_wf c \<Longrightarrow> set_index_of c A < length (cacheGrid c)"
  using set_index_le_mask [of c A] by (simp add: cache_wf_def)

lemma install_set_index:
  "cache_wf c \<Longrightarrow> unat ((A AND ucast (index_mask c)) mod ucast (sets c)) = set_index_of c A"
  using set_index_le_mask [of c A]
  by (simp add: cache_wf_def unat_mod_distrib unat_ucast_u32_u64 set_index_of_def)

lemma cache_find_victim_lt:
  assumes "length (row (cacheGrid c ! si)) = unat (ways c)" and "0 < unat (ways c)"
  shows "fst (cache_find_victim g c si k) < unat (ways c)"
proof -
  let ?r = "row (cacheGrid c ! si)"
  have ne: "?r \<noteq> []" using assms by auto
  show ?thesis
  proof (cases "first_invalid ?r 0")
    case (Some i)
    from first_invalid_Some [OF this] have "i < length ?r" by auto
    with Some assms show ?thesis
      by (cases "policy c") (simp_all add: cache_find_victim_def)
  next
    case None
    show ?thesis
    proof (cases "policy c")
      case LRU
      obtain v t where l: "lru_scan ?r 0 (0, lastAccessTime (?r ! 0)) = (v, t)"
        by (cases "lru_scan ?r 0 (0, lastAccessTime (?r ! 0))")
      from lru_scan_index [OF l] assms have "v < unat (ways c)" by auto
      with LRU None l show ?thesis by (simp add: cache_find_victim_def)
    next
      case RANDOM
      have "unat (rand_tape g 0 mod ways c) < unat (ways c)"
        using assms(2) by (simp add: unat_mod_distrib)
      with RANDOM None show ?thesis
        by (simp add: cache_find_victim_def rand_call_def)
    next
      case SWP
      with None way_of_core_lt [OF ne] assms show ?thesis
        by (simp add: cache_find_victim_def Let_def)
    next
      case DWP
      with None way_of_core_lt [OF ne] assms show ?thesis
        by (simp add: cache_find_victim_def Let_def)
    qed
  qed
qed

lemma cache_find_victim_invalid:
  "first_invalid (row (cacheGrid c ! si)) 0 = Some i \<Longrightarrow> cache_find_victim g c si k = (i, g)"
  by (cases "policy c") (simp_all add: cache_find_victim_def)

lemma cache_find_victim_cycle:
  "current_cycle (snd (cache_find_victim g c si k)) = current_cycle g"
  by (cases "policy c")
     (auto simp add: cache_find_victim_def rand_call_def Let_def split: option.splits prod.splits)

lemma cache_access_fields [simp]:
  "ways (snd (cache_access g c A w k)) = ways c"
  "sets (snd (cache_access g c A w k)) = sets c"
  "policy (snd (cache_access g c A w k)) = policy c"
  "index_mask (snd (cache_access g c A w k)) = index_mask c"
  "index_bits (snd (cache_access g c A w k)) = index_bits c"
  "lastEvictedLine (snd (cache_access g c A w k)) = lastEvictedLine c"
  "stat_dirty_evicts (snd (cache_access g c A w k)) = stat_dirty_evicts c"
  by (simp_all add: cache_access_def Let_def split: option.splits)

lemma cache_install_fields [simp]:
  "ways (fst (cache_install g c A w k)) = ways c"
  "sets (fst (cache_install g c A w k)) = sets c"
  "policy (fst (cache_install g c A w k)) = policy c"
  "index_mask (fst (cache_install g c A w k)) = index_mask c"
  "index_bits (fst (cache_install g c A w k)) = index_bits c"
  "stat_read_access (fst (cache_install g c A w k)) = stat_read_access c"
  "stat_read_miss (fst (cache_install g c A w k)) = stat_read_miss c"
  "stat_write_access (fst (cache_install g c A w k)) = stat_write_access c"
  "stat_write_miss (fst (cache_install g c A w k)) = stat_write_miss c"
  by (simp_all add: cache_install_def Let_def split: prod.splits)

lemma map_key_update:
  "i < length xs \<Longrightarrow> line_key y = line_key (xs ! i) \<Longrightarrow> map line_key (xs[i := y]) = map line_key xs"
  by (simp add: list_eq_iff_nth_eq nth_list_update)

lemma find_hit_key:
  "map line_key ls = map line_key ls' \<Longrightarrow> find_hit ls i k t = find_hit ls' i k t"
  by (rule find_hit_cong) (simp add: line_key_def [abs_def])

lemma cache_access_result:
  "fst (cache_access g c A w k) =
     (if \<exists>l \<in> set (row (cacheGrid c ! set_index_of c A)).
            valid l \<and> coreID l = k \<and> tag l = tag_of c A
      then HIT else MISS)"
proof (cases "find_hit (row (cacheGrid c ! set_index_of c A)) 0 k (tag_of c A)")
  case None
  then show ?thesis
    using None [unfolded find_hit_None]
    by (simp add: cache_access_def set_index_of_def tag_of_def Let_def)
next
  case (Some i)
  from find_hit_Some [OF Some] have "\<exists>l \<in> set (row (cacheGrid c ! set_index_of c A)).
            valid l \<and> coreID l = k \<and> tag l = tag_of c A"
    by (auto intro: nth_mem)
  with Some show ?thesis
    by (simp add: cache_access_def set_index_of_def tag_of_def Let_def)
qed

lemma cache_access_grid:
  "\<exists>s'. cacheGrid (snd (cache_access g c A w k)) = (cacheGrid c)[set_index_of c A := s'] \<and>
        ways_per_core s' = ways_per_core (cacheGrid c ! set_index_of c A) \<and>
        map line_key (row s') = map line_key (row (cacheGrid c ! set_index_of c A)) \<and>
        length (totalHits (umon s')) = length (totalHits (umon (cacheGrid c ! set_index_of c A)))"
proof (cases "find_hit (row (cacheGrid c ! set_index_of c A)) 0 k (tag_of c A)")
  case None
  then show ?thesis
    apply (simp add: cache_access_def set_index_of_def tag_of_def Let_def)
    apply (intro exI conjI)
       apply (rule refl)
      apply simp_all
    done
next
  case (Some i)
  from find_hit_Some [OF Some] have i: "i < length (row (cacheGrid c ! set_index_of c A))"
    by auto
  show ?thesis
    using Some [unfolded set_index_of_def tag_of_def] i [unfolded set_index_of_def]
    apply (cases w)
     apply (simp add: cache_access_def set_index_of_def tag_of_def Let_def)
     apply (intro exI conjI)
        apply (rule refl)
       apply (simp_all add: map_key_update line_key_def)[3]
    apply (simp add: cache_access_def set_index_of_def tag_of_def Let_def)
    apply (intro exI conjI)
       apply (rule refl)
      apply (simp_all add: map_key_update line_key_def)
    done
qed

lemma victim_way_lt:
  "cache_wf c \<Longrightarrow> victim_way g c A k < length (row (cacheGrid c ! set_index_of c A))"
proof -
  assume wf: "cache_wf c"
  then have "cacheGrid c ! set_index_of c A \<in> set (cacheGrid c)"
    using set_index_lt [OF wf, of A] by simp
  with wf have l: "length (row (cacheGrid c ! set_index_of c A)) = unat (ways c)"
    and p: "0 < unat (ways c)"
    by (auto simp add: cache_wf_def)
  from cache_find_victim_lt [OF l p] l show ?thesis
    by (simp add: victim_way_def)
qed

lemma line_literal:
  "l\<lparr>valid := a, tag := t, coreID := k, lastAccessTime := cy, dirty := d\<rparr> =
     \<lparr>valid = a, dirty = d, tag = t, coreID = k, lastAccessTime = cy\<rparr>"
  "l\<lparr>valid := a, dirty := d, tag := t, coreID := k, lastAccessTime := cy\<rparr> =
     \<lparr>valid = a, dirty = d, tag = t, coreID = k, lastAccessTime = cy\<rparr>"
  by (cases l, simp)+

lemma cache_install_grid:
  assumes "cache_wf c"
  shows "cacheGrid (fst (cache_install g c A w k)) =
           (cacheGrid c)[set_index_of c A :=
              (let s = cacheGrid c ! set_index_of c A;
                   i = victim_way g c A k;
                   e = row s ! i;
                   w0 = ways_per_core s;
                   w1 = (if valid e then w0[unat (coreID e) := w0 ! unat (coreID e) - 1] else w0)
               in s\<lparr>row := (row s)[i := \<lparr>valid = True, dirty = w, tag = tag_of c A,
                                          coreID = k, lastAccessTime = current_cycle g\<rparr>],
                     ways_per_core := w1[unat k := w1 ! unat k + 1]\<rparr>)]"
    and "lastEvictedLine (fst (cache_install g c A w k)) =
           row (cacheGrid c ! set_index_of c A) ! victim_way g c A k"
    and "stat_dirty_evicts (fst (cache_install g c A w k)) =
           (let e = row (cacheGrid c ! set_index_of c A) ! victim_way g c A k
            in if valid e \<and> dirty e then stat_dirty_evicts c + 1 else stat_dirty_evicts c)"
proof -
  obtain i g1 where v: "cache_find_victim g c (set_index_of c A) k = (i, g1)"
    by (cases "cache_find_victim g c (set_index_of c A) k")
  then have i: "victim_way g c A k = i" by (simp add: victim_way_def)
  have cy: "current_cycle g1 = current_cycle g"
    using cache_find_victim_cycle [of g c "set_index_of c A" k] v by simp
  show "cacheGrid (fst (cache_install g c A w k)) =
           (cacheGrid c)[set_index_of c A :=
              (let s = cacheGrid c ! set_index_of c A;
                   i = victim_way g c A k;
                   e = row s ! i;
                   w0 = ways_per_core s;
                   w1 = (if valid e then w0[unat (coreID e) := w0 ! unat (coreID e) - 1] else w0)
               in s\<lparr>row := (row s)[i := \<lparr>valid = True, dirty = w, tag = tag_of c A,
                                          coreID = k, lastAccessTime = current_cycle g\<rparr>],
                     ways_per_core := w1[unat k := w1 ! unat k + 1]\<rparr>)]"
    by (cases w)
       (simp_all add: cache_install_def install_set_index [OF assms] v i cy Let_def tag_of_def
          line_literal)
  show "lastEvictedLine (fst (cache_install g c A w k)) =
           row (cacheGrid c ! set_index_of c A) ! victim_way g c A k"
    by (simp add: cache_install_def install_set_index [OF assms] v i Let_def)
  show "stat_dirty_evicts (fst (cache_install g c A w k)) =
           (let e = row (cacheGrid c ! set_index_of c A) ! victim_way g c A k
            in if valid e \<and> dirty e then stat_dirty_evicts c + 1 else stat_dirty_evicts c)"
    by (simp add: cache_install_def install_set_index [OF assms] v i Let_def)
qed

lemma set_update_cases:
  "x \<in> set (xs[i := y]) \<Longrightarrow> x = y \<or> x \<in> set xs"
  using set_update_subset_insert [of xs i y] by auto

lemma cache_wf_access: "cache_wf c \<Longrightarrow> cache_wf (snd (cache_access g c A w k))"
proof -
  assume wf: "cache_wf c"
  from cache_access_grid [of g c A w k] obtain s' where
    s: "cacheGrid (snd (cache_access g c A w k)) = (cacheGrid c)[set_index_of c A := s']"
       "map line_key (row s') = map line_key (row (cacheGrid c ! set_index_of c A))"
       "ways_per_core s' = ways_per_core (cacheGrid c ! set_index_of c A)"
       "length (totalHits (umon s')) = length (totalHits (umon (cacheGrid c ! set_index_of c A)))"
    by blast
  have m: "cacheGrid c ! set_index_of c A \<in> set (cacheGrid c)"
    using set_index_lt [OF wf, of A] by simp
  have l: "length (row s') = length (row (cacheGrid c ! set_index_of c A))"
    using s(2) by (metis length_map)
  from wf m l s(1,3,4) show ?thesis
    unfolding cache_wf_def by (auto dest!: set_update_cases)
qed

lemma cache_wf_install: "cache_wf c \<Longrightarrow> cache_wf (fst (cache_install g c A w k))"
proof -
  assume wf: "cache_wf c"
  have m: "cacheGrid c ! set_index_of c A \<in> set (cacheGrid c)"
    using set_index_lt [OF wf, of A] by simp
  with wf show ?thesis
    unfolding cache_wf_def cache_install_grid(1) [OF wf]
    by (auto simp add: Let_def dest!: set_update_cases)
qed

lemma length_filter_update:
  "i < length xs \<Longrightarrow>
     length (filter P (xs[i := y])) + (if P (xs ! i) then 1 else 0) =
     length (filter P xs) + (if P y then 1 else 0)"
proof (induction xs arbitrary: i)
  case Nil
  then show ?case by simp
next
  case (Cons x xs)
  show ?case
  proof (cases i)
    case 0
    then show ?thesis by simp
  next
    case (Suc j)
    with Cons.prems have "j < length xs" by simp
    from Cons.IH [OF this] Suc show ?thesis by simp
  qed
qed

lemma ways_owned_key:
  "map line_key (row s') = map line_key (row s) \<Longrightarrow> ways_owned s' core = ways_owned s core"
proof -
  assume a: "map line_key (row s') = map line_key (row s)"
  have e: "ways_owned t core =
        length (filter (\<lambda>x. fst x \<and> fst (snd x) = core) (map line_key (row t)))"
    for t :: CacheSet
    by (simp add: ways_owned_def filter_map comp_def line_key_def)
  show ?thesis by (simp only: e a)
qed

lemma owners_key:
  fixes s s' :: CacheSet
  shows "map line_key (row s') = map line_key (row s) \<Longrightarrow>
     (\<forall>l \<in> set (row s'). valid l \<longrightarrow> coreID l < 2) = (\<forall>l \<in> set (row s). valid l \<longrightarrow> coreID l < 2)"
proof -
  assume a: "map line_key (row s') = map line_key (row s)"
  have e: "(\<forall>l \<in> set (row t). valid l \<longrightarrow> coreID l < 2) =
        (\<forall>x \<in> set (map line_key (row t)). fst x \<longrightarrow> fst (snd x) < 2)"
    for t :: CacheSet
    by (simp add: line_key_def)
  show ?thesis by (simp only: e a)
qed

lemma ilog2_pow_le: "0 < n \<Longrightarrow> 2 ^ ilog2 n \<le> n"
proof (induction n rule: ilog2.induct)
  case (1 n)
  show ?case
  proof (cases "n < 2")
    case True
    with "1.prems" show ?thesis by (simp add: ilog2.simps)
  next
    case False
    then have "0 < n div 2" by simp
    from "1.IH" [OF False this] have "2 * 2 ^ ilog2 (n div 2) \<le> 2 * (n div 2)" by simp
    also have "\<dots> \<le> n" by simp
    finally show ?thesis using False by (subst ilog2.simps) simp
  qed
qed

lemma ilog2_less: "n < 2 ^ k \<Longrightarrow> 0 < k \<Longrightarrow> ilog2 n < k"
proof (induction n arbitrary: k rule: ilog2.induct)
  case (1 n)
  show ?case
  proof (cases "n < 2")
    case True
    with "1.prems" show ?thesis by (simp add: ilog2.simps)
  next
    case False
    from "1.prems" obtain j where k: "k = Suc j" by (cases k) auto
    with "1.prems" have "n div 2 < 2 ^ j" by simp
    moreover from False k "1.prems" have "0 < j"
      by (cases j) auto
    ultimately have "ilog2 (n div 2) < j" using "1.IH" [OF False] by simp
    with False k show ?thesis by (subst ilog2.simps) simp
  qed
qed

lemma unat_2p_u32: "k < 32 \<Longrightarrow> unat (2 ^ k :: u32) = 2 ^ k"
proof -
  assume k: "k < 32"
  have "(2 ^ k :: u32) = of_nat (2 ^ k)" by simp
  then have "unat (2 ^ k :: u32) = 2 ^ k mod 2 ^ 32"
    by (simp only: unat_of_nat) simp
  moreover have "(2 :: nat) ^ k < 2 ^ 32"
    using k by (intro power_strict_increasing) simp_all
  ultimately show ?thesis by simp
qed

lemma index_mask_lt:
  fixes n :: u32
  assumes "0 < n"
  shows "unat (push_bit (unat (of_nat (ilog2 (unat n)) :: u32)) 1 - 1 :: u32) < unat n"
proof -
  have n: "0 < unat n" using assms by (simp add: word_less_nat_alt)
  have "unat n < 2 ^ 32" using unsigned_less [of n] by simp
  then have l: "ilog2 (unat n) < 32" by (rule ilog2_less) simp
  then have u: "unat (of_nat (ilog2 (unat n)) :: u32) = ilog2 (unat n)"
    by (simp add: unat_of_nat)
  have p: "unat (2 ^ ilog2 (unat n) :: u32) = 2 ^ ilog2 (unat n)"
    using l by (rule unat_2p_u32)
  then have "(2 ^ ilog2 (unat n) :: u32) \<noteq> 0"
    by (metis unat_0_iff power_not_zero zero_neq_numeral)
  then have m: "unat (2 ^ ilog2 (unat n) - 1 :: u32) = 2 ^ ilog2 (unat n) - 1"
    by (simp add: unat_minus_one p)
  have z: "(0::nat) < 2 ^ ilog2 (unat n)" by simp
  from ilog2_pow_le [OF n] z have "(2::nat) ^ ilog2 (unat n) - 1 < unat n" by arith
  then show ?thesis
    by (simp only: u push_bit_eq_mult mult_1 m)
qed

lemma cache_new_wf:
  assumes "c = cache_new size_bytes associativity line_size replacement_policy"
    and "0 < ways c" and "ways c \<le> 16" and "0 < sets c"
  shows "cache_wf c"
proof -
  have m: "index_mask c = push_bit (unat (of_nat (ilog2 (unat (sets c))) :: u32)) 1 - 1"
    by (simp add: assms(1) cache_new_def Let_def)
  have "unat (index_mask c) < unat (sets c)"
    unfolding m by (rule index_mask_lt [OF assms(4)])
  moreover have "0 < unat (ways c)" "unat (ways c) \<le> 16" "0 < unat (sets c)"
    using assms(2-4) by (simp_all add: word_less_nat_alt word_le_nat_alt)
  moreover have "length (cacheGrid c) = unat (sets c)"
    by (simp add: assms(1) cache_new_def Let_def)
  moreover have "\<forall>s \<in> set (cacheGrid c).
        length (row s) = unat (ways c) \<and> length (ways_per_core s) = 2 \<and>
        length (totalHits (umon s)) = 16"
    by (simp add: assms(1) cache_new_def Let_def)
  ultimately show ?thesis by (simp add: cache_wf_def)
qed

lemma cache_new_counts:
  "owners_ok (cache_new size_bytes associativity line_size replacement_policy)"
  "ways_per_core_ok (cache_new size_bytes associativity line_size replacement_policy)"
  by (auto simp add: owners_ok_def ways_per_core_ok_def cache_new_def Let_def ways_owned_def
        zero_line_def dest!: u32_less_2)

lemma u32_adjust:
  fixes x :: u32
  assumes "m + a = unat x + b" and "a \<le> 1" and "b \<le> 1" and "m \<le> 16"
  shows "unat (x - of_nat a + of_nat b) = m"
proof -
  from assms(2,3) consider "a = 0" "b = 0" | "a = 0" "b = 1" | "a = 1" "b = 0" | "a = 1" "b = 1"
    by (cases a; cases b) auto
  then show ?thesis
  proof cases
    case 1
    with assms show ?thesis by simp
  next
    case 2
    with assms have "unat x + unat (1 :: u32) < 2 ^ 32" by simp
    then have "unat (x + 1) = unat x + unat (1 :: u32)"
      using unat_add_lem [of x 1] by simp
    with 2 assms show ?thesis by simp
  next
    case 3
    with assms have "x \<noteq> 0" by (auto simp add: unat_0_iff [symmetric] simp del: unat_0_iff)
    then have "unat (x - 1) = unat x - 1" by (rule unat_minus_one)
    with 3 assms show ?thesis by simp
  next
    case 4
    with assms show ?thesis by simp
  qed
qed

lemma ways_owned_le: "ways_owned s core \<le> length (row s)"
  by (simp add: ways_owned_def)

lemma counts_access:
  assumes wf: "cache_wf c" and o: "owners_ok c" and w: "ways_per_core_ok c"
  shows "owners_ok (snd (cache_access g c A wr k))"
    and "ways_per_core_ok (snd (cache_access g c A wr k))"
proof -
  let ?s = "cacheGrid c ! set_index_of c A"
  from cache_access_grid [of g c A wr k] obtain s' where
    s: "cacheGrid (snd (cache_access g c A wr k)) = (cacheGrid c)[set_index_of c A := s']"
       "map line_key (row s') = map line_key (row ?s)"
       "ways_per_core s' = ways_per_core ?s"
    by blast
  have m: "?s \<in> set (cacheGrid c)"
    using set_index_lt [OF wf, of A] by simp
  have os: "\<forall>l \<in> set (row s'). valid l \<longrightarrow> coreID l < 2"
    using owners_key [OF s(2)] o m by (simp add: owners_ok_def)
  have ws: "\<forall>core < 2. unat (ways_per_core s' ! unat core) = ways_owned s' core"
    using ways_owned_key [OF s(2)] w m by (simp add: ways_per_core_ok_def s(3))
  show "owners_ok (snd (cache_access g c A wr k))"
    unfolding owners_ok_def s(1) using o os
    by (auto simp add: owners_ok_def dest!: set_update_cases)
  show "ways_per_core_ok (snd (cache_access g c A wr k))"
    unfolding ways_per_core_ok_def s(1) using w ws
    by (auto simp add: ways_per_core_ok_def dest!: set_update_cases)
qed

lemma counts_install:
  assumes wf: "cache_wf c" and o: "owners_ok c" and w: "ways_per_core_ok c" and k: "k < 2"
  shows "owners_ok (fst (cache_install g c A wr k))"
    and "ways_per_core_ok (fst (cache_install g c A wr k))"
proof -
  let ?s = "cacheGrid c ! set_index_of c A"
  let ?i = "victim_way g c A k"
  let ?e = "row ?s ! ?i"
  let ?nl = "\<lparr>valid = True, dirty = wr, tag = tag_of c A, coreID = k,
              lastAccessTime = current_cycle g\<rparr>"
  let ?w0 = "ways_per_core ?s"
  let ?w1 = "if valid ?e then ?w0[unat (coreID ?e) := ?w0 ! unat (coreID ?e) - 1] else ?w0"
  let ?w2 = "?w1[unat k := ?w1 ! unat k + 1]"
  let ?S = "?s\<lparr>row := (row ?s)[?i := ?nl], ways_per_core := ?w2\<rparr>"
  have grid: "cacheGrid (fst (cache_install g c A wr k)) = (cacheGrid c)[set_index_of c A := ?S]"
    using cache_install_grid(1) [OF wf, of g A wr k] by (simp add: Let_def)
  have m: "?s \<in> set (cacheGrid c)"
    using set_index_lt [OF wf, of A] by simp
  have i: "?i < length (row ?s)" by (rule victim_way_lt [OF wf])
  have len: "length ?w0 = 2" "length (row ?s) \<le> 16"
    using wf m by (auto simp add: cache_wf_def)
  have e: "valid ?e \<Longrightarrow> coreID ?e < 2"
    using o m i by (auto simp add: owners_ok_def)
  have oS: "\<forall>l \<in> set (row ?S). valid l \<longrightarrow> coreID l < 2"
    using o m k by (auto simp add: owners_ok_def dest!: set_update_cases)
  have wS: "unat (ways_per_core ?S ! unat core) = ways_owned ?S core" if core: "core < 2" for core
  proof -
    let ?a = "if valid ?e \<and> coreID ?e = core then 1 else 0 :: nat"
    let ?b = "if k = core then 1 else 0 :: nat"
    have n: "unat (?w0 ! unat core) = ways_owned ?s core"
      using w m core by (simp add: ways_per_core_ok_def)
    have "ways_owned ?S core + ?a = ways_owned ?s core + ?b"
      using length_filter_update [OF i, of "\<lambda>l. valid l \<and> coreID l = core" ?nl]
      by (simp add: ways_owned_def)
    then have eq: "ways_owned ?S core + ?a = unat (?w0 ! unat core) + ?b"
      by (simp only: n)
    have le: "ways_owned ?S core \<le> 16"
      using ways_owned_le [of ?S core] len(2) by simp
    have adj: "unat (?w0 ! unat core - of_nat ?a + of_nat ?b) = ways_owned ?S core"
      by (rule u32_adjust [OF eq _ _ le]) simp_all
    have "?w2 ! unat core = ?w0 ! unat core - of_nat ?a + of_nat ?b"
      using u32_less_2 [OF core] u32_less_2 [OF k] e len(1)
      by (cases "valid ?e") (auto dest!: u32_less_2)
    with adj show ?thesis by simp
  qed
  show "owners_ok (fst (cache_install g c A wr k))"
    unfolding owners_ok_def grid using o oS
    by (auto simp add: owners_ok_def dest!: set_update_cases)
  show "ways_per_core_ok (fst (cache_install g c A wr k))"
    unfolding ways_per_core_ok_def grid using w wS
    by (auto simp add: ways_per_core_ok_def dest!: set_update_cases)
qed

lemma reachable_inv: "reachable c \<Longrightarrow> cache_wf c \<and> owners_ok c \<and> ways_per_core_ok c"
proof (induction rule: reachable.induct)
  case (new c size_bytes associativity line_size replacement_policy)
  then show ?case
    using cache_new_wf [of c size_bytes associativity line_size replacement_policy]
      cache_new_counts [of size_bytes associativity line_size replacement_policy]
    by simp
next
  case (access c core_id g line_addr is_write)
  then show ?case
    by (simp add: cache_wf_access counts_access)
next
  case (install c core_id g line_addr is_write)
  then show ?case
    by (simp add: cache_wf_install counts_install)
qed

lemma install_ways_per_core:
  assumes wf: "cache_wf c" and o: "owners_ok c" and k: "k < 2" and core: "core < 2"
  shows "ways_per_core (cacheGrid (fst (cache_install g c A wr k)) ! set_index_of c A) ! unat core =
           ways_per_core (cacheGrid c ! set_index_of c A) ! unat core
           - (if valid (lastEvictedLine (fst (cache_install g c A wr k))) \<and>
                 coreID (lastEvictedLine (fst (cache_install g c A wr k))) = core then 1 else 0)
           + (if k = core then 1 else 0)"
proof -
  let ?s = "cacheGrid c ! set_index_of c A"
  let ?e = "row ?s ! victim_way g c A k"
  have m: "?s \<in> set (cacheGrid c)" and lt: "set_index_of c A < length (cacheGrid c)"
    using set_index_lt [OF wf, of A] by simp_all
  have i: "victim_way g c A k < length (row ?s)" by (rule victim_way_lt [OF wf])
  have len: "length (ways_per_core ?s) = 2"
    using wf m by (auto simp add: cache_wf_def)
  have e: "valid ?e \<Longrightarrow> coreID ?e < 2"
    using o m i by (auto simp add: owners_ok_def)
  show ?thesis
    unfolding cache_install_grid [OF wf]
    using u32_less_2 [OF core] u32_less_2 [OF k] e len lt
    by (cases "valid ?e") (auto simp add: Let_def dest!: u32_less_2)
qed

lemma access_keeps_lines:
  "map (\<lambda>s. (map line_key (row s), ways_per_core s)) (cacheGrid (snd (cache_access g c A wr k))) =
   map (\<lambda>s. (map line_key (row s), ways_per_core s)) (cacheGrid c)"
proof -
  let ?f = "\<lambda>s :: CacheSet. (map line_key (row s), ways_per_core s)"
  let ?si = "set_index_of c A"
  from cache_access_grid [of g c A wr k] obtain s' where
    s: "cacheGrid (snd (cache_access g c A wr k)) = (cacheGrid c)[?si := s']"
       "map line_key (row s') = map line_key (row (cacheGrid c ! ?si))"
       "ways_per_core s' = ways_per_core (cacheGrid c ! ?si)"
    by blast
  show ?thesis
  proof (cases "?si < length (cacheGrid c)")
    case True
    have "?f s' = ?f (cacheGrid c ! ?si)" by (simp only: s(2,3))
    then have "map ?f ((cacheGrid c)[?si := s']) = (map ?f (cacheGrid c))[?si := map ?f (cacheGrid c) ! ?si]"
      using True by (simp only: map_update nth_map)
    then show ?thesis by (simp only: s(1) list_update_id)
  next
    case False
    then have "(cacheGrid c)[?si := s'] = cacheGrid c" by (simp only: list_update_beyond not_less)
    then show ?thesis by (simp only: s(1))
  qed
qed

text \<open>
  Claim C7. In every reachable state of a cache, for every set and each core 0 and 1,
  \<open>ways_per_core\<close> of the core is the number of ways of the set whose line is valid and
  belongs to the core. Every access and every install by a core 0 or 1 keeps this. An
  access changes neither the validity, the owner or the tag of any line nor any
  \<open>ways_per_core\<close>; an install takes one off the count of the owner of the evicted line
  when that line is valid, and adds one to the count of the installing core.
\<close>

theorem ways_per_core_invariant:
  assumes "reachable c"
  shows "(\<forall>s \<in> set (cacheGrid c). \<forall>core < 2.
            unat (ways_per_core s ! unat core) = ways_owned s core) \<and>
         (\<forall>g A wr k. k < 2 \<longrightarrow>
            ways_per_core_ok (snd (cache_access g c A wr k)) \<and>
            ways_per_core_ok (fst (cache_install g c A wr k))) \<and>
         (\<forall>g A wr k.
            map (\<lambda>s. (map line_key (row s), ways_per_core s))
               (cacheGrid (snd (cache_access g c A wr k))) =
            map (\<lambda>s. (map line_key (row s), ways_per_core s)) (cacheGrid c)) \<and>
         (\<forall>g A wr k core. k < 2 \<and> core < 2 \<longrightarrow>
            ways_per_core (cacheGrid (fst (cache_install g c A wr k)) ! set_index_of c A)
              ! unat core =
            ways_per_core (cacheGrid c ! set_index_of c A) ! unat core
            - (if valid (lastEvictedLine (fst (cache_install g c A wr k))) \<and>
                  coreID (lastEvictedLine (fst (cache_install g c A wr k))) = core
               then 1 else 0)
            + (if k = core then 1 else 0))"
proof -
  from reachable_inv [OF assms]
  have inv: "cache_wf c" "owners_ok c" "ways_per_core_ok c" by simp_all
  have "\<forall>s \<in> set (cacheGrid c). \<forall>core < 2.
            unat (ways_per_core s ! unat core) = ways_owned s core"
    using inv(3) by (simp add: ways_per_core_ok_def)
  moreover have "\<forall>g A wr k. k < 2 \<longrightarrow>
            ways_per_core_ok (snd (cache_access g c A wr k)) \<and>
            ways_per_core_ok (fst (cache_install g c A wr k))"
    using counts_access(2) [OF inv] counts_install(2) [OF inv] by simp
  moreover note access_keeps_lines [of _ c]
  moreover have "\<forall>g A wr k core. k < 2 \<and> core < 2 \<longrightarrow>
            ways_per_core (cacheGrid (fst (cache_install g c A wr k)) ! set_index_of c A)
              ! unat core =
            ways_per_core (cacheGrid c ! set_index_of c A) ! unat core
            - (if valid (lastEvictedLine (fst (cache_install g c A wr k))) \<and>
                  coreID (lastEvictedLine (fst (cache_install g c A wr k))) = core
               then 1 else 0)
            + (if k = core then 1 else 0)"
    using install_ways_per_core [OF inv(1,2)] by blast
  ultimately show ?thesis by blast
qed

lemma ilog2_1: "ilog2 (Suc 0) = 0" "ilog2 1 = 0"
  by (simp_all add: ilog2.simps)

lemma cache_new_64_1_64:
  "cache_new 64 1 64 p =
     \<lparr>cacheGrid = [\<lparr>row = [zero_line], ways_per_core = [0, 0],
                    umon = \<lparr>totalHits = replicate 16 0, totalMisses = 0\<rparr>\<rparr>],
      ways = 1, sets = 1, policy = p, lastEvictedLine = zero_line,
      index_mask = 0, index_bits = 0,
      stat_read_access = 0, stat_read_miss = 0,
      stat_write_access = 0, stat_write_miss = 0, stat_dirty_evicts = 0\<rparr>"
  by (simp add: cache_new_def ilog2_1)

lemma reachable_64_1_64: "reachable (cache_new 64 1 64 p)"
  by (rule reachable.new [OF refl]) (simp_all add: cache_new_64_1_64)

theorem ways_per_core_invariant_witness:
  "ways_per_core
     (cacheGrid (fst (cache_install example_globals (cache_new 64 1 64 LRU) 0 False 1)) ! 0)
     = [0, 1] \<and>
   ways_owned
     (cacheGrid (fst (cache_install example_globals (cache_new 64 1 64 LRU) 0 False 1)) ! 0) 0
     = 0 \<and>
   ways_owned
     (cacheGrid (fst (cache_install example_globals (cache_new 64 1 64 LRU) 0 False 1)) ! 0) 1
     = 1"
  using ways_per_core_invariant
    [OF reachable.install [OF reachable_64_1_64, of 1 example_globals LRU 0 False]]
  by (simp add: cache_new_64_1_64 cache_install_def cache_find_victim_def zero_line_def
        ways_owned_def)

text \<open>
  Claim C3. \<open>cache_find_victim\<close> under SWP on a full set (every way valid). When
  \<open>ways_per_core[0]\<close> is at least \<open>SWP_CORE0_WAYS\<close> and the set holds lines of both cores,
  the victim way holds a line of the requesting core (0 or 1); when \<open>ways_per_core[0]\<close>
  is below \<open>SWP_CORE0_WAYS\<close> and the set holds a line of core 1, the victim way holds a
  line of core 1. In both cases, and whenever the set holds a line of the target core,
  the victim has the smallest \<open>lastAccessTime\<close> among the lines of the target core, and
  the lowest way index among those equally old.
\<close>

theorem swp_victim:
  assumes "policy c = SWP"
    and "\<forall>l \<in> set (row (cacheGrid c ! set_index)). valid l"
  shows "let s = cacheGrid c ! set_index;
             v = fst (cache_find_victim g c set_index core_id);
             target = (if ways_per_core s ! 0 < SWP_CORE0_WAYS g then 1 else core_id)
         in (SWP_CORE0_WAYS g \<le> ways_per_core s ! 0 \<and> core_id < 2 \<and>
               (\<exists>l \<in> set (row s). coreID l = 0) \<and> (\<exists>l \<in> set (row s). coreID l = 1) \<longrightarrow>
               coreID (row s ! v) = core_id) \<and>
            (ways_per_core s ! 0 < SWP_CORE0_WAYS g \<and> (\<exists>l \<in> set (row s). coreID l = 1) \<longrightarrow>
               coreID (row s ! v) = 1) \<and>
            ((\<exists>l \<in> set (row s). coreID l = target) \<longrightarrow>
               v < length (row s) \<and> coreID (row s ! v) = target \<and>
               (\<forall>j < length (row s). coreID (row s ! j) = target \<longrightarrow>
                  lastAccessTime (row s ! v) \<le> lastAccessTime (row s ! j) \<and>
                  (lastAccessTime (row s ! j) = lastAccessTime (row s ! v) \<longrightarrow> v \<le> j)))"
proof -
  let ?s = "cacheGrid c ! set_index"
  let ?target = "if ways_per_core ?s ! 0 < SWP_CORE0_WAYS g then 1 else core_id"
  have "first_invalid (row ?s) 0 = None"
    using assms(2) by (simp add: first_invalid_None)
  then have v: "fst (cache_find_victim g c set_index core_id) = way_of_core (row ?s) ?target"
    using assms(1) by (simp add: cache_find_victim_def Let_def)
  have spec: "(\<exists>l \<in> set (row ?s). coreID l = k) \<Longrightarrow>
      way_of_core (row ?s) k < length (row ?s) \<and> coreID (row ?s ! way_of_core (row ?s) k) = k \<and>
      (\<forall>j < length (row ?s). coreID (row ?s ! j) = k \<longrightarrow>
          lastAccessTime (row ?s ! way_of_core (row ?s) k) \<le> lastAccessTime (row ?s ! j) \<and>
          (lastAccessTime (row ?s ! j) = lastAccessTime (row ?s ! way_of_core (row ?s) k) \<longrightarrow>
             way_of_core (row ?s) k \<le> j))" for k
    by (rule way_of_core_spec)
  have a: "SWP_CORE0_WAYS g \<le> ways_per_core ?s ! 0 \<and> core_id < 2 \<and>
        (\<exists>l \<in> set (row ?s). coreID l = 0) \<and> (\<exists>l \<in> set (row ?s). coreID l = 1) \<longrightarrow>
        coreID (row ?s ! way_of_core (row ?s) ?target) = core_id"
    using spec [of core_id] by (auto dest!: u32_less_2)
  have b: "ways_per_core ?s ! 0 < SWP_CORE0_WAYS g \<and> (\<exists>l \<in> set (row ?s). coreID l = 1) \<longrightarrow>
        coreID (row ?s ! way_of_core (row ?s) ?target) = 1"
    using spec [of 1] by auto
  show ?thesis
    unfolding Let_def v using a b spec [of ?target] by blast
qed

theorem swp_victim_witness:
  "fst (cache_find_victim (example_globals\<lparr>SWP_CORE0_WAYS := 2\<rparr>) example_swp_cache 0 0) = 2 \<and>
   fst (cache_find_victim (example_globals\<lparr>SWP_CORE0_WAYS := 2\<rparr>) example_swp_cache 0 1) = 1 \<and>
   fst (cache_find_victim (example_globals\<lparr>SWP_CORE0_WAYS := 3\<rparr>) example_swp_cache 0 0) = 1"
  using swp_victim [of example_swp_cache 0 "example_globals\<lparr>SWP_CORE0_WAYS := 2\<rparr>" 0]
    swp_victim [of example_swp_cache 0 "example_globals\<lparr>SWP_CORE0_WAYS := 2\<rparr>" 1]
    swp_victim [of example_swp_cache 0 "example_globals\<lparr>SWP_CORE0_WAYS := 3\<rparr>" 0]
  by (simp add: example_swp_cache_def example_globals_def cache_find_victim_def way_of_core_def)

section \<open>Hits, scenarios and writebacks\<close>

lemma hit_iff_present: "fst (cache_access g c A w k) = HIT \<longleftrightarrow> line_present c A k"
  by (simp add: cache_access_result line_present_def)

lemma line_present_key:
  "line_present c A k \<longleftrightarrow>
     (True, k, tag_of c A) \<in> set (map line_key (row (cacheGrid c ! set_index_of c A)))"
  by (auto simp add: line_present_def line_key_def image_iff)

lemma index_of_apply [simp]:
  "set_index_of (apply_op c x) A = set_index_of c A"
  "tag_of (apply_op c x) A = tag_of c A"
  by (cases x; simp add: set_index_of_def tag_of_def)+

lemma cache_wf_apply: "cache_wf c \<Longrightarrow> cache_wf (apply_op c x)"
  by (cases x) (simp_all add: cache_wf_access cache_wf_install)

lemma present_access:
  assumes "line_present c A k"
  shows "line_present (snd (cache_access g c B w k')) A k"
proof -
  let ?c' = "snd (cache_access g c B w k')"
  from cache_access_grid [of g c B w k'] obtain s' where
    s: "cacheGrid ?c' = (cacheGrid c)[set_index_of c B := s']"
       "map line_key (row s') = map line_key (row (cacheGrid c ! set_index_of c B))"
    by blast
  have i: "set_index_of ?c' A = set_index_of c A" "tag_of ?c' A = tag_of c A"
    by (simp_all add: set_index_of_def tag_of_def)
  have "map line_key (row (cacheGrid ?c' ! set_index_of c A)) =
        map line_key (row (cacheGrid c ! set_index_of c A))"
  proof (cases "set_index_of c B < length (cacheGrid c)")
    case True
    then show ?thesis
      using s by (cases "set_index_of c B = set_index_of c A") simp_all
  next
    case False
    then have "(cacheGrid c)[set_index_of c B := s'] = cacheGrid c"
      by (simp only: list_update_beyond not_less)
    then show ?thesis by (simp only: s(1))
  qed
  with assms show ?thesis
    by (simp only: line_present_key i)
qed

lemma present_install_same:
  assumes "cache_wf c"
  shows "line_present (fst (cache_install g c A w k)) A k"
proof -
  let ?c' = "fst (cache_install g c A w k)"
  let ?nl = "\<lparr>valid = True, dirty = w, tag = tag_of c A, coreID = k,
              lastAccessTime = current_cycle g\<rparr>"
  have i: "set_index_of ?c' A = set_index_of c A" "tag_of ?c' A = tag_of c A"
    by (simp_all add: set_index_of_def tag_of_def)
  have lt: "set_index_of c A < length (cacheGrid c)" by (rule set_index_lt [OF assms])
  have v: "victim_way g c A k < length (row (cacheGrid c ! set_index_of c A))"
    by (rule victim_way_lt [OF assms])
  have "row (cacheGrid ?c' ! set_index_of c A) =
          (row (cacheGrid c ! set_index_of c A))[victim_way g c A k := ?nl]"
    unfolding cache_install_grid(1) [OF assms] using lt by (simp add: Let_def)
  then have "?nl \<in> set (row (cacheGrid ?c' ! set_index_of c A))"
    using v by (simp add: set_update_memI)
  then show ?thesis
    unfolding line_present_def i by (intro bexI [of _ ?nl]) simp_all
qed

lemma present_install_other:
  assumes wf: "cache_wf c" and p: "line_present c A k"
    and ne: "\<not> evicts c (Install g B w k') A k"
  shows "line_present (fst (cache_install g c B w k')) A k"
proof -
  let ?c' = "fst (cache_install g c B w k')"
  let ?s = "cacheGrid c ! set_index_of c A"
  have i: "set_index_of ?c' A = set_index_of c A" "tag_of ?c' A = tag_of c A"
    by (simp_all add: set_index_of_def tag_of_def)
  have ltB: "set_index_of c B < length (cacheGrid c)" by (rule set_index_lt [OF wf])
  from p obtain l where l: "l \<in> set (row ?s)" "valid l" "coreID l = k" "tag l = tag_of c A"
    by (auto simp add: line_present_def)
  then obtain j where j: "j < length (row ?s)" "row ?s ! j = l"
    by (auto simp add: in_set_conv_nth)
  show ?thesis
  proof (cases "set_index_of c B = set_index_of c A")
    case False
    then have "cacheGrid ?c' ! set_index_of c A = ?s"
      unfolding cache_install_grid(1) [OF wf] by simp
    with p show ?thesis by (simp add: line_present_def i)
  next
    case True
    have e: "lastEvictedLine ?c' = row ?s ! victim_way g c B k'"
      using cache_install_grid(2) [OF wf, of g B w k'] True by simp
    have "victim_way g c B k' \<noteq> j"
      using ne e True l j by (auto simp add: Let_def)
    moreover have "row (cacheGrid ?c' ! set_index_of c A) =
          (row ?s)[victim_way g c B k' :=
             \<lparr>valid = True, dirty = w, tag = tag_of c B, coreID = k',
               lastAccessTime = current_cycle g\<rparr>]"
      unfolding cache_install_grid(1) [OF wf] using ltB True by (simp add: Let_def)
    ultimately have "row (cacheGrid ?c' ! set_index_of c A) ! j = l"
      "j < length (row (cacheGrid ?c' ! set_index_of c A))"
      using j by simp_all
    then have "l \<in> set (row (cacheGrid ?c' ! set_index_of c A))"
      by (metis nth_mem)
    with l show ?thesis
      unfolding line_present_def i by blast
  qed
qed

lemma present_ops:
  "cache_wf c \<Longrightarrow> line_present c A k \<Longrightarrow> no_conflict c xs A k \<Longrightarrow>
     line_present (foldl apply_op c xs) A k"
proof (induction xs arbitrary: c)
  case Nil
  then show ?case by simp
next
  case (Cons x xs)
  have "line_present (apply_op c x) A k"
  proof (cases x)
    case (Access g B w k')
    with Cons.prems(2) show ?thesis by (simp add: present_access)
  next
    case (Install g B w k')
    with Cons.prems show ?thesis by (simp add: present_install_other del: evicts.simps)
  qed
  with Cons.prems Cons.IH [of "apply_op c x"] show ?case
    by (simp add: cache_wf_apply)
qed

text \<open>
  Claim C9. For a well-formed cache, a line address \<open>A\<close> and a core: after an access to
  \<open>A\<close> that returns HIT, or one that returns MISS and is followed at once by the install
  of \<open>A\<close> for the core, and after any further accesses and installs none of which
  evicts the way that holds \<open>A\<close> for the core, an access to \<open>A\<close> by the core returns
  HIT, whatever the write flags and the process-wide variables of the operations.
\<close>

theorem hit_after_access:
  assumes "cache_wf c" and "core_id < 2" and "\<forall>x \<in> set ops. op_core x < 2"
    and "c1 = (case cache_access g c A w core_id of
                 (HIT, c') \<Rightarrow> c'
               | (MISS, c') \<Rightarrow> fst (cache_install g c' A w core_id))"
    and "no_conflict c1 ops A core_id"
  shows "fst (cache_access g' (foldl apply_op c1 ops) A w' core_id) = HIT"
proof -
  obtain r c' where a: "cache_access g c A w core_id = (r, c')"
    by (cases "cache_access g c A w core_id")
  then have c': "c' = snd (cache_access g c A w core_id)" by simp
  have wf': "cache_wf c'" unfolding c' by (rule cache_wf_access [OF assms(1)])
  have "cache_wf c1 \<and> line_present c1 A core_id"
  proof (cases r)
    case HIT
    then have "line_present c A core_id"
      using a hit_iff_present [of g c A w core_id] by simp
    then have "line_present c' A core_id" unfolding c' by (rule present_access)
    with HIT a wf' assms(4) show ?thesis by simp
  next
    case MISS
    with a assms(4) have "c1 = fst (cache_install g c' A w core_id)" by simp
    with wf' show ?thesis
      by (simp add: cache_wf_install present_install_same)
  qed
  with assms(5) have "line_present (foldl apply_op c1 ops) A core_id"
    by (simp add: present_ops)
  then show ?thesis by (simp add: hit_iff_present)
qed

lemma replicate_2: "replicate 2 x = [x, x]"
  by (simp add: numeral_2_eq_2)

lemma cache_new_128_2_64:
  "cache_new 128 2 64 p =
     \<lparr>cacheGrid = [\<lparr>row = [zero_line, zero_line], ways_per_core = [0, 0],
                    umon = \<lparr>totalHits = replicate 16 0, totalMisses = 0\<rparr>\<rparr>],
      ways = 2, sets = 1, policy = p, lastEvictedLine = zero_line,
      index_mask = 0, index_bits = 0,
      stat_read_access = 0, stat_read_miss = 0,
      stat_write_access = 0, stat_write_miss = 0, stat_dirty_evicts = 0\<rparr>"
  by (simp add: cache_new_def ilog2_1 replicate_2)

lemma cache_wf_128_2_64: "cache_wf (cache_new 128 2 64 p)"
  by (rule cache_new_wf [OF refl]) (simp_all add: cache_new_128_2_64)

theorem hit_after_access_witness:
  "fst (cache_access example_globals
         (foldl apply_op
            (fst (cache_install example_globals
                    (snd (cache_access example_globals (cache_new 128 2 64 LRU) 0 False 0))
                    0 False 0))
            [Access example_globals 5 False 0, Install example_globals 5 True 0])
         0 False 0) = HIT"
proof -
  let ?c1 = "fst (cache_install example_globals
                    (snd (cache_access example_globals (cache_new 128 2 64 LRU) 0 False 0))
                    0 False 0)"
  let ?ops = "[Access example_globals 5 False 0, Install example_globals 5 True 0]"
  have core: "(0 :: u32) < 2" by simp
  have ops: "\<forall>x \<in> set ?ops. op_core x < 2" by simp
  have first: "?c1 = (case cache_access example_globals (cache_new 128 2 64 LRU) 0 False 0 of
                 (HIT, c') \<Rightarrow> c'
               | (MISS, c') \<Rightarrow> fst (cache_install example_globals c' 0 False 0))"
    by (simp add: cache_new_128_2_64 cache_access_def zero_line_def)
  have quiet: "no_conflict ?c1 ?ops 0 0"
    by code_simp
  from hit_after_access [OF cache_wf_128_2_64 core ops first quiet]
  show ?thesis .
qed

lemma find_victim_one_way:
  "length (row (cacheGrid c ! 0)) = 1 \<Longrightarrow> ways c = 1 \<Longrightarrow>
   fst (cache_find_victim g c 0 core_id) = 0"
  using cache_find_victim_lt [of c 0 g core_id] by simp

lemma find_victim_config:
  "SIM_MODE (snd (cache_find_victim g c si core_id)) = SIM_MODE g"
  "CACHE_LINESIZE (snd (cache_find_victim g c si core_id)) = CACHE_LINESIZE g"
  by (cases "policy c";
      auto simp add: cache_find_victim_def rand_call_def Let_def split: option.splits prod.splits)+

lemma modeA_trace:
  assumes "SIM_MODE g = SIM_MODE_A" and "CACHE_LINESIZE g = 64"
    and "DCACHE_SIZE g = 64" and "DCACHE_ASSOC g = 1"
  shows "\<exists>sys g' c. memsys_run g (memsys_new g)
            [(t1, 0x0, ACCESS_TYPE_LOAD, core_id), (t2, 0x0, ACCESS_TYPE_LOAD, core_id),
             (t3, 0x40, ACCESS_TYPE_STORE, core_id), (t4, 0x0, ACCESS_TYPE_LOAD, core_id)]
            = Some (sys, g') \<and> dcache sys = Some c \<and>
          stat_read_access c = 3 \<and> stat_write_access c = 1 \<and>
          stat_read_miss c = 2 \<and> stat_write_miss c = 1 \<and> stat_dirty_evicts c = 1"
proof -
  define v where "v = (\<lambda>g c. fst (cache_find_victim g c 0 core_id))"
  define gv where "gv = (\<lambda>g c. snd (cache_find_victim g c 0 core_id))"
  have fv: "cache_find_victim g c 0 core_id = (v g c, gv g c)" for g c
    by (simp add: v_def gv_def)
  have v0: "length (row (cacheGrid c ! 0)) = 1 \<Longrightarrow> ways c = 1 \<Longrightarrow> v g c = 0" for g c
    unfolding v_def by (rule find_victim_one_way)
  have gvc: "current_cycle (gv g c) = current_cycle g"
      "SIM_MODE (gv g c) = SIM_MODE g" "CACHE_LINESIZE (gv g c) = CACHE_LINESIZE g" for g c
    unfolding gv_def by (rule cache_find_victim_cycle find_victim_config)+
  show ?thesis
    using assms
    by (simp add: memsys_new_def cache_new_64_1_64 memsys_access_def memsys_access_modeA_def
         cache_access_def cache_install_def zero_line_def fv v0 gvc Let_def)
qed

text \<open>
  Claim C2, as stated, fails. In mode A with a 64 byte, 1-way data cache and 64 byte
  lines, the trace LOAD 0x0, LOAD 0x0, STORE 0x40, LOAD 0x0 leaves \<open>stat_dirty_evicts\<close>
  at 1, not at 0: the STORE evicts a clean line, but the last LOAD evicts the line the
  STORE has installed dirty.
\<close>

theorem modeA_scenario_counterexample:
  "SIM_MODE modeA_example = SIM_MODE_A \<and> CACHE_LINESIZE modeA_example = 64 \<and>
   DCACHE_SIZE modeA_example = 64 \<and> DCACHE_ASSOC modeA_example = 1 \<and>
   map_option (\<lambda>(sys, g). map_option stat_dirty_evicts (dcache sys))
     (memsys_run modeA_example (memsys_new modeA_example)
        [(0, 0x0, ACCESS_TYPE_LOAD, 0), (1, 0x0, ACCESS_TYPE_LOAD, 0),
         (2, 0x40, ACCESS_TYPE_STORE, 0), (3, 0x0, ACCESS_TYPE_LOAD, 0)])
     = Some (Some 1) \<and>
   map_option (\<lambda>(sys, g). map_option stat_dirty_evicts (dcache sys))
     (memsys_run modeA_example (memsys_new modeA_example)
        [(0, 0x0, ACCESS_TYPE_LOAD, 0), (1, 0x0, ACCESS_TYPE_LOAD, 0),
         (2, 0x40, ACCESS_TYPE_STORE, 0), (3, 0x0, ACCESS_TYPE_LOAD, 0)])
     \<noteq> Some (Some 0)"
proof -
  have m: "SIM_MODE modeA_example = SIM_MODE_A" "CACHE_LINESIZE modeA_example = 64"
    "DCACHE_SIZE modeA_example = 64" "DCACHE_ASSOC modeA_example = 1"
    by (simp_all add: modeA_example_def example_globals_def)
  from modeA_trace [OF m, of 0 0 1 2 3] m show ?thesis by auto
qed

text \<open>
  Claim C2, amended. In mode A with a 64 byte, 1-way data cache and 64 byte lines (one
  set of one way), under any replacement policy, for any core and at any cycles, the
  trace LOAD 0x0, LOAD 0x0, STORE 0x40, LOAD 0x0 leaves the counters of the data cache
  at \<open>stat_read_access = 3\<close>, \<open>stat_write_access = 1\<close>, \<open>stat_read_miss = 2\<close>,
  \<open>stat_write_miss = 1\<close> and \<open>stat_dirty_evicts = 1\<close>.
\<close>

theorem modeA_scenario:
  assumes "SIM_MODE g = SIM_MODE_A" and "CACHE_LINESIZE g = 64"
    and "DCACHE_SIZE g = 64" and "DCACHE_ASSOC g = 1"
  shows "\<exists>sys g' c. memsys_run g (memsys_new g)
            [(t1, 0x0, ACCESS_TYPE_LOAD, core_id), (t2, 0x0, ACCESS_TYPE_LOAD, core_id),
             (t3, 0x40, ACCESS_TYPE_STORE, core_id), (t4, 0x0, ACCESS_TYPE_LOAD, core_id)]
            = Some (sys, g') \<and> dcache sys = Some c \<and>
          stat_read_access c = 3 \<and> stat_write_access c = 1 \<and>
          stat_read_miss c = 2 \<and> stat_write_miss c = 1 \<and> stat_dirty_evicts c = 1"
  using assms by (rule modeA_trace)

theorem modeA_scenario_witness:
  "map_option (\<lambda>(sys, g). map_option
       (\<lambda>c. [stat_read_access c, stat_write_access c, stat_read_miss c, stat_write_miss c,
             stat_dirty_evicts c]) (dcache sys))
     (memsys_run modeA_example (memsys_new modeA_example)
        [(0, 0x0, ACCESS_TYPE_LOAD, 0), (1, 0x0, ACCESS_TYPE_LOAD, 0),
         (2, 0x40, ACCESS_TYPE_STORE, 0), (3, 0x0, ACCESS_TYPE_LOAD, 0)])
     = Some (Some [3, 1, 2, 1, 1])"
proof -
  have m: "SIM_MODE modeA_example = SIM_MODE_A" "CACHE_LINESIZE modeA_example = 64"
    "DCACHE_SIZE modeA_example = 64" "DCACHE_ASSOC modeA_example = 1"
    by (simp_all add: modeA_example_def example_globals_def)
  from modeA_scenario [OF m, of 0 0 1 2 3] show ?thesis by auto
qed




lemma dirty_ways_install_write:
  assumes "cache_wf c"
  shows "(set_index_of c B, victim_way g c B k) \<in> dirty_ways (fst (cache_install g c B True k))"
  unfolding dirty_ways_def cache_install_grid(1) [OF assms]
  using set_index_lt [OF assms, of B] victim_way_lt [OF assms, of g B k]
  by (simp add: Let_def)

lemma cache_access_stats:
  "stat_write_access (snd (cache_access g c A wr k)) =
     (if wr then stat_write_access c + 1 else stat_write_access c)"
  "stat_read_access (snd (cache_access g c A wr k)) =
     (if wr then stat_read_access c else stat_read_access c + 1)"
  "stat_write_miss (snd (cache_access g c A wr k)) =
     (if wr \<and> \<not> line_present c A k then stat_write_miss c + 1 else stat_write_miss c)"
  "stat_read_miss (snd (cache_access g c A wr k)) =
     (if \<not> wr \<and> \<not> line_present c A k then stat_read_miss c + 1 else stat_read_miss c)"
proof -
  have p: "line_present c A k \<longleftrightarrow>
      find_hit (row (cacheGrid c ! set_index_of c A)) 0 k (tag_of c A) \<noteq> None"
    by (auto simp add: find_hit_None line_present_def)
  show "stat_write_access (snd (cache_access g c A wr k)) =
     (if wr then stat_write_access c + 1 else stat_write_access c)"
    "stat_read_access (snd (cache_access g c A wr k)) =
     (if wr then stat_read_access c else stat_read_access c + 1)"
    "stat_write_miss (snd (cache_access g c A wr k)) =
     (if wr \<and> \<not> line_present c A k then stat_write_miss c + 1 else stat_write_miss c)"
    "stat_read_miss (snd (cache_access g c A wr k)) =
     (if \<not> wr \<and> \<not> line_present c A k then stat_read_miss c + 1 else stat_read_miss c)"
    unfolding p
    by (auto simp add: cache_access_def set_index_of_def tag_of_def Let_def split: option.splits)
qed

lemma dram_access_counts:
  "stat_write_access_dram (snd (dram_access g d A wr)) =
     (if wr then stat_write_access_dram d + 1 else stat_write_access_dram d)"
  "stat_read_access_dram (snd (dram_access g d A wr)) =
     (if wr then stat_read_access_dram d else stat_read_access_dram d + 1)"
  by (auto simp add: dram_access_def dram_access_mode_CDEF_def Let_def split: prod.splits)

lemma l2_access_writeback:
  assumes "l2cache sys = Some l2" and "dram sys = Some d" and "cache_wf l2" and "core_id < 2"
  shows "\<exists>delay sys' g' l2' d'.
           memsys_l2_access g sys A wb core_id = Some (delay, sys', g') \<and>
           l2cache sys' = Some l2' \<and> dram sys' = Some d' \<and>
           (if line_present l2 A core_id
            then l2' = snd (cache_access g l2 A wb core_id) \<and> d' = d
            else l2' = fst (cache_install g (snd (cache_access g l2 A wb core_id)) A wb core_id) \<and>
                 stat_read_access_dram d' = stat_read_access_dram d + 1 \<and>
                 stat_write_access_dram d' = stat_write_access_dram d +
                   (if valid (lastEvictedLine l2') \<and> dirty (lastEvictedLine l2') then 1 else 0)) \<and>
           (wb \<and> \<not> line_present l2 A core_id \<longrightarrow>
              stat_write_access l2' = stat_write_access l2 + 1 \<and>
              stat_write_miss l2' = stat_write_miss l2 + 1 \<and>
              stat_read_access l2' = stat_read_access l2 \<and>
              stat_read_miss l2' = stat_read_miss l2 \<and>
              (\<exists>wi. (set_index_of l2 A, wi) \<in> dirty_ways l2' \<and>
                    coreID (row (cacheGrid l2' ! set_index_of l2 A) ! wi) = core_id \<and>
                    tag (row (cacheGrid l2' ! set_index_of l2 A) ! wi) = tag_of l2 A))"
proof -
  obtain r l2a where a: "cache_access g l2 A wb core_id = (r, l2a)"
    by (cases "cache_access g l2 A wb core_id")
  then have l2a: "l2a = snd (cache_access g l2 A wb core_id)" and r: "r = fst (cache_access g l2 A wb core_id)"
    by simp_all
  have wfa: "cache_wf l2a" unfolding l2a by (rule cache_wf_access [OF assms(3)])
  show ?thesis
  proof (cases "line_present l2 A core_id")
    case True
    then have "r = HIT" using r by (simp add: hit_iff_present)
    with True show ?thesis
      using assms(1,2) a by (simp add: memsys_l2_access_def l2a [symmetric])
  next
    case False
    then have m: "r = MISS" using r hit_iff_present [of g l2 A wb core_id] by (cases r) auto
    obtain dd d1 where d1: "dram_access g d A False = (dd, d1)"
      by (cases "dram_access g d A False")
    obtain l2b g1 where b: "cache_install g l2a A wb core_id = (l2b, g1)"
      by (cases "cache_install g l2a A wb core_id")
    then have l2b: "l2b = fst (cache_install g l2a A wb core_id)" by simp
    obtain wd d2 where d2: "dram_access g1 d1 (evicted_line_address l2b A) True = (wd, d2)"
      by (cases "dram_access g1 d1 (evicted_line_address l2b A) True")
    have c1: "stat_read_access_dram d1 = stat_read_access_dram d + 1"
      "stat_write_access_dram d1 = stat_write_access_dram d"
      using dram_access_counts [of g d A False] d1 by simp_all
    have c2: "stat_read_access_dram d2 = stat_read_access_dram d1"
      "stat_write_access_dram d2 = stat_write_access_dram d1 + 1"
      using dram_access_counts [of g1 d1 "evicted_line_address l2b A" True] d2 by simp_all
    have st: "wb \<Longrightarrow> stat_write_access l2b = stat_write_access l2 + 1 \<and>
              stat_write_miss l2b = stat_write_miss l2 + 1 \<and>
              stat_read_access l2b = stat_read_access l2 \<and>
              stat_read_miss l2b = stat_read_miss l2"
      unfolding l2b l2a using False by (simp add: cache_access_stats)
    have si: "set_index_of l2a A = set_index_of l2 A" "tag_of l2a A = tag_of l2 A"
      unfolding l2a by (simp_all add: set_index_of_def tag_of_def)
    have dl: "wb \<Longrightarrow> (set_index_of l2 A, victim_way g l2a A core_id) \<in> dirty_ways l2b \<and>
        coreID (row (cacheGrid l2b ! set_index_of l2 A) ! victim_way g l2a A core_id) = core_id \<and>
        tag (row (cacheGrid l2b ! set_index_of l2 A) ! victim_way g l2a A core_id) = tag_of l2 A"
      using dirty_ways_install_write [OF wfa, of A g core_id]
        set_index_lt [OF wfa, of A] victim_way_lt [OF wfa, of g A core_id]
      unfolding l2b cache_install_grid(1) [OF wfa] si
      by (simp add: Let_def)
    show ?thesis
    proof (cases "valid (lastEvictedLine l2b) \<and> dirty (lastEvictedLine l2b)")
      case True
      with False m a d1 b d2 c1 c2 st dl assms(1,2) show ?thesis
        by (auto simp add: memsys_l2_access_def l2b [symmetric] l2a [symmetric])
    next
      case no: False
      with False m a d1 b c1 st dl assms(1,2) show ?thesis
        by (auto simp add: memsys_l2_access_def l2b [symmetric] l2a [symmetric])
    qed
  qed
qed

text \<open>
  Claim C1 at an input where the code departs from it. Mode C, data cache of one set
  and one way, L2 of one set and two ways, 64 byte lines; the trace is STORE at byte
  address \<open>2^38\<close> (line address \<open>2^32\<close>), then LOAD at byte address 0. The LOAD misses
  the data cache and its install evicts the valid dirty line with tag \<open>2^32\<close> (index
  bits 0), whose line address is \<open>2^32\<close>. The address rebuilt for the writeback is 0:
  the L2 access with the writeback flag hits the L2 line of address 0 and marks it
  dirty, and the L2 line of address \<open>2^32\<close> stays clean.
\<close>

theorem writeback_address_truncated:
  "map_option
     (\<lambda>(sys, g).
        (map_option (\<lambda>c. (valid (lastEvictedLine c), dirty (lastEvictedLine c),
                           tag (lastEvictedLine c), index_bits c, evicted_line_address c 0))
           (dcache sys),
         map_option (\<lambda>c. (map (\<lambda>l. (valid l, dirty l, tag l)) (row (cacheGrid c ! 0)),
                           stat_write_access c, stat_write_miss c))
           (l2cache sys)))
     (memsys_run modeC_example (memsys_new modeC_example)
        [(0, 0x4000000000, ACCESS_TYPE_STORE, 0), (1, 0x0, ACCESS_TYPE_LOAD, 0)])
   = Some (Some (True, True, 0x100000000, 0, 0),
           Some ([(True, False, 0x100000000), (True, True, 0)], 1, 0))"
  by code_simp



text \<open>
  Joining on 64 bits and cutting to 32 bits afterwards gives the same address.
\<close>

lemma evicted_line_address_joined:
  "evicted_line_address c A =
     ucast (ucast (push_bit (unat (index_bits c)) (tag (lastEvictedLine c)) OR
                   ucast (ucast (A AND ucast (index_mask c)) :: u32)) :: u32)"
  unfolding evicted_line_address_def Let_def
  by (rule bit_eqI) (auto simp add: bit_simps)

text \<open>
  Below \<open>2^32\<close> the rebuilt address is the address of the evicted line: the shifted
  tag joined with the set index of the reference.
\<close>

lemma evicted_line_address_small:
  assumes "push_bit (unat (index_bits c)) (tag (lastEvictedLine c)) < 2 ^ 32"
  shows "evicted_line_address c A =
           push_bit (unat (index_bits c)) (tag (lastEvictedLine c)) OR
           (A AND ucast (index_mask c))"
proof -
  let ?P = "push_bit (unat (index_bits c)) (tag (lastEvictedLine c))"
  have "unat ?P < 2 ^ 32"
    using assms by (simp add: word_less_nat_alt)
  then have "unat (take_bit 32 ?P) = unat ?P"
    by (simp add: unsigned_take_bit_eq take_bit_nat_eq_self_iff)
  then have t: "take_bit 32 ?P = ?P"
    by (simp only: word_unat_eq_iff)
  have u: "bit ?P n \<Longrightarrow> n < 32" for n
    using t by (metis bit_take_bit_iff)
  have u': "n < 64 \<Longrightarrow> unat (index_bits c) \<le> n \<Longrightarrow>
      bit (tag (lastEvictedLine c)) (n - unat (index_bits c)) \<Longrightarrow> n < 32" for n
    using u [of n] by (simp add: bit_simps)
  have m: "bit (index_mask c) n \<Longrightarrow> n < 32" for n
    using bit_imp_le_length [of "index_mask c" n] by simp
  show ?thesis
    unfolding evicted_line_address_def Let_def
    by (rule bit_eqI) (auto simp add: bit_simps dest: u' m)
qed

section \<open>The victim of LRU and the number of writebacks\<close>

lemma hits_of_core_sum:
  "hits_of_core ls hs core acc =
     acc + sum_list (map snd (filter (\<lambda>(l, h). coreID l = core) (zip ls hs)))"
  by (induction ls hs core acc rule: hits_of_core.induct) (simp_all add: add.assoc)

text \<open>The LRU loop: what it returns, given what it starts from.\<close>

lemma lru_scan_spec:
  "lru_scan ls i (index, t) = (index', t') \<Longrightarrow>
     (index' = index \<and> t' = t \<and> (\<forall>m < length ls. t \<le> lastAccessTime (ls ! m))) \<or>
     (\<exists>n < length ls. index' = i + n \<and> t' = lastAccessTime (ls ! n) \<and> t' < t \<and>
        (\<forall>m < length ls. t' \<le> lastAccessTime (ls ! m) \<and>
           (lastAccessTime (ls ! m) = t' \<longrightarrow> n \<le> m)))"
proof (induction ls arbitrary: i index t)
  case Nil
  then show ?case by simp
next
  case (Cons l ls)
  show ?case
  proof (cases "lastAccessTime l < t")
    case True
    with Cons.prems
    have "lru_scan ls (Suc i) (i, lastAccessTime l) = (index', t')" by simp
    from Cons.IH [OF this] show ?thesis
    proof (elim disjE exE conjE)
      assume a: "index' = i" "t' = lastAccessTime l"
        "\<forall>m < length ls. lastAccessTime l \<le> lastAccessTime (ls ! m)"
      have "\<forall>m < length (l # ls). t' \<le> lastAccessTime ((l # ls) ! m) \<and>
             (lastAccessTime ((l # ls) ! m) = t' \<longrightarrow> 0 \<le> m)"
        using a by (auto simp add: nth_Cons split: nat.splits)
      with a True show ?thesis
        by (intro disjI2 exI [of _ 0]) simp
    next
      fix n
      assume a: "n < length ls" "index' = Suc i + n"
        "t' = lastAccessTime (ls ! n)" "t' < lastAccessTime l"
        "\<forall>m < length ls. t' \<le> lastAccessTime (ls ! m) \<and>
            (lastAccessTime (ls ! m) = t' \<longrightarrow> n \<le> m)"
      have "\<forall>m < length (l # ls). t' \<le> lastAccessTime ((l # ls) ! m) \<and>
             (lastAccessTime ((l # ls) ! m) = t' \<longrightarrow> Suc n \<le> m)"
        using a by (auto simp add: nth_Cons split: nat.splits)
      moreover have "t' < t" using a(4) True less_trans by blast
      ultimately show ?thesis
        using a by (intro disjI2 exI [of _ "Suc n"]) simp
    qed
  next
    case False
    with Cons.prems
    have "lru_scan ls (Suc i) (index, t) = (index', t')" by simp
    from Cons.IH [OF this] show ?thesis
    proof (elim disjE exE conjE)
      assume a: "index' = index" "t' = t"
        "\<forall>m < length ls. t \<le> lastAccessTime (ls ! m)"
      have "\<forall>m < length (l # ls). t \<le> lastAccessTime ((l # ls) ! m)"
        using a False by (auto simp add: nth_Cons split: nat.splits)
      with a show ?thesis by simp
    next
      fix n
      assume a: "n < length ls" "index' = Suc i + n"
        "t' = lastAccessTime (ls ! n)" "t' < t"
        "\<forall>m < length ls. t' \<le> lastAccessTime (ls ! m) \<and>
            (lastAccessTime (ls ! m) = t' \<longrightarrow> n \<le> m)"
      have "\<forall>m < length (l # ls). t' \<le> lastAccessTime ((l # ls) ! m) \<and>
             (lastAccessTime ((l # ls) ! m) = t' \<longrightarrow> Suc n \<le> m)"
        using a False by (auto simp add: nth_Cons split: nat.splits)
      then show ?thesis
        using a by (intro disjI2 exI [of _ "Suc n"]) simp
    qed
  qed
qed

text \<open>
  \<open>cache_find_victim\<close> under LRU on a full set returns the way with the smallest
  \<open>lastAccessTime\<close>, the lowest way index among those equally old.
\<close>

lemma lru_victim:
  assumes "policy c = LRU"
    and "\<forall>l \<in> set (row (cacheGrid c ! set_index)). valid l"
    and "row (cacheGrid c ! set_index) \<noteq> []"
  shows "let r = row (cacheGrid c ! set_index);
             v = fst (cache_find_victim g c set_index core_id)
         in v < length r \<and>
            (\<forall>j < length r. lastAccessTime (r ! v) \<le> lastAccessTime (r ! j) \<and>
               (lastAccessTime (r ! j) = lastAccessTime (r ! v) \<longrightarrow> v \<le> j))"
proof -
  let ?r = "row (cacheGrid c ! set_index)"
  have n: "first_invalid ?r 0 = None"
    using assms(2) by (simp add: first_invalid_None)
  obtain v t where l: "lru_scan ?r 0 (0, lastAccessTime (?r ! 0)) = (v, t)"
    by (cases "lru_scan ?r 0 (0, lastAccessTime (?r ! 0))")
  have v: "fst (cache_find_victim g c set_index core_id) = v"
    using assms(1) n l by (simp add: cache_find_victim_def)
  have len: "0 < length ?r" using assms(3) by simp
  from lru_scan_spec [OF l] show ?thesis
    unfolding Let_def v using len by (elim disjE exE conjE) auto
qed

lemma lru_victim_witness:
  "fst (cache_find_victim example_globals (example_swp_cache\<lparr>policy := LRU\<rparr>) 0 0) = 2"
  using lru_victim [of "example_swp_cache\<lparr>policy := LRU\<rparr>" 0 example_globals 0]
  by (simp add: example_swp_cache_def cache_find_victim_def)

lemma l2_access_counts:
  assumes "l2cache sys = Some l2" and "dram sys = Some d" and "cache_wf l2" and "core_id < 2"
  shows "\<exists>delay sys' g' l2' d'.
           memsys_l2_access g sys A wb core_id = Some (delay, sys', g') \<and>
           l2cache sys' = Some l2' \<and> dram sys' = Some d' \<and> cache_wf l2' \<and>
           stat_write_access l2' = stat_write_access l2 + (if wb then 1 else 0) \<and>
           stat_read_access l2' = stat_read_access l2 + (if wb then 0 else 1)"
proof -
  from l2_access_writeback [OF assms, of g A wb]
  obtain delay sys' g' l2' d' where
    r: "memsys_l2_access g sys A wb core_id = Some (delay, sys', g')"
       "l2cache sys' = Some l2'" "dram sys' = Some d'"
    and l: "if line_present l2 A core_id
            then l2' = snd (cache_access g l2 A wb core_id) \<and> d' = d
            else l2' = fst (cache_install g (snd (cache_access g l2 A wb core_id)) A wb core_id) \<and>
                 stat_read_access_dram d' = stat_read_access_dram d + 1 \<and>
                 stat_write_access_dram d' = stat_write_access_dram d +
                   (if valid (lastEvictedLine l2') \<and> dirty (lastEvictedLine l2') then 1 else 0)"
    by blast
  from l have e: "l2' = snd (cache_access g l2 A wb core_id) \<or>
      l2' = fst (cache_install g (snd (cache_access g l2 A wb core_id)) A wb core_id)"
    by (simp split: if_splits)
  have wf: "cache_wf l2'"
    using e cache_wf_access [OF assms(3), of g A wb core_id] cache_wf_install by blast
  have "stat_write_access l2' = stat_write_access l2 + (if wb then 1 else 0) \<and>
        stat_read_access l2' = stat_read_access l2 + (if wb then 0 else 1)"
    using e by (auto simp add: cache_access_stats)
  with r wf show ?thesis by blast
qed

text \<open>
  Modes B and C, with both L1 caches, the L2 cache and the DRAM in place: the reference
  reads the L2 cache once exactly when it misses its L1 cache, and it writes the L2
  cache once (the writeback) exactly when it is a load or a store that misses and the
  line its install evicted is valid and dirty; otherwise the L2 cache sees no write.
\<close>

lemma modeBC_writeback_count:
  fixes type :: AccessType
  assumes "icache sys = Some ic" and "dcache sys = Some dc"
    and "l2cache sys = Some l2" and "dram sys = Some d" and "cache_wf l2" and "core_id < 2"
  defines "c \<equiv> if type = ACCESS_TYPE_IFETCH then ic else dc"
  shows "\<exists>delay sys' g' l2' c'.
           memsys_access_modeBC g sys A type core_id = Some (delay, sys', g') \<and>
           l2cache sys' = Some l2' \<and>
           (if type = ACCESS_TYPE_IFETCH then icache sys' else dcache sys') = Some c' \<and>
           stat_read_access l2' =
             stat_read_access l2 + (if line_present c A core_id then 0 else 1) \<and>
           stat_write_access l2' =
             stat_write_access l2 +
               (if \<not> line_present c A core_id \<and> type \<noteq> ACCESS_TYPE_IFETCH \<and>
                   valid (lastEvictedLine c') \<and> dirty (lastEvictedLine c') then 1 else 0)"
proof -
  let ?w = "type = ACCESS_TYPE_STORE"
  obtain r c1 where a: "cache_access g c A ?w core_id = (r, c1)"
    by (cases "cache_access g c A ?w core_id")
  then have r: "r = fst (cache_access g c A ?w core_id)" by simp
  show ?thesis
  proof (cases "line_present c A core_id")
    case True
    then have "r = HIT" using r by (simp add: hit_iff_present)
    with True a assms(1-3) show ?thesis
      by (cases type) (simp_all add: memsys_access_modeBC_def c_def)
  next
    case False
    then have m: "r = MISS" using r hit_iff_present [of g c A ?w core_id] by (cases r) auto
    from l2_access_counts [OF assms(3-6), of g A False]
    obtain l2_delay sys1 g1 l2a d1 where
      f: "memsys_l2_access g sys A False core_id = Some (l2_delay, sys1, g1)"
         "l2cache sys1 = Some l2a" "dram sys1 = Some d1" "cache_wf l2a"
         "stat_write_access l2a = stat_write_access l2"
         "stat_read_access l2a = stat_read_access l2 + 1"
      by auto
    obtain c2 g2 where b: "cache_install g1 c1 A ?w core_id = (c2, g2)"
      by (cases "cache_install g1 c1 A ?w core_id")
    show ?thesis
    proof (cases "type \<noteq> ACCESS_TYPE_IFETCH \<and>
                  valid (lastEvictedLine c2) \<and> dirty (lastEvictedLine c2)")
      case True
      from l2_access_counts [OF f(2-4) assms(6), of g2 "evicted_line_address c2 A" True]
      obtain wb_delay sys2 g3 l2b where
        s: "memsys_l2_access g2 sys1 (evicted_line_address c2 A) True core_id =
              Some (wb_delay, sys2, g3)"
           "l2cache sys2 = Some l2b"
           "stat_write_access l2b = stat_write_access l2a + 1"
           "stat_read_access l2b = stat_read_access l2a"
        by auto
      from True False m a b f s assms(1-2) show ?thesis
        by (cases type) (simp_all add: memsys_access_modeBC_def c_def)
    next
      case n: False
      from n False m a b f assms(1-2) show ?thesis
        by (cases type) (auto simp add: memsys_access_modeBC_def c_def)
    qed
  qed
qed

section \<open>The DWP quota\<close>

lemma bit_length_bounds: "0 < n \<Longrightarrow> 2 ^ bit_length n \<le> 2 * n \<and> n < 2 ^ bit_length n"
proof (induction n rule: bit_length.induct)
  case (1 n)
  show ?case
  proof (cases "n = 1")
    case True
    have "bit_length 1 = 1"
      by (subst bit_length.simps, simp, subst bit_length.simps, simp)
    with True show ?thesis by simp
  next
    case False
    with "1.prems" have p: "0 < n div 2" by simp
    with "1.IH" "1.prems"
    have "2 ^ bit_length (n div 2) \<le> 2 * (n div 2) \<and> n div 2 < 2 ^ bit_length (n div 2)"
      by simp
    moreover have "bit_length n = Suc (bit_length (n div 2))"
      using "1.prems" by (subst bit_length.simps) simp
    moreover have "2 * (n div 2) \<le> n" "n \<le> 2 * (n div 2) + 1" by presburger+
    ultimately show ?thesis by simp
  qed
qed

lemma bit_length_le: "0 < n \<Longrightarrow> n < 2 ^ k \<Longrightarrow> bit_length n \<le> k"
proof (rule ccontr)
  assume n: "0 < n" "n < 2 ^ k" and "\<not> bit_length n \<le> k"
  then have "Suc k \<le> bit_length n" by simp
  then have "(2::int) ^ Suc k \<le> 2 ^ bit_length n" by (rule power_increasing) simp
  with bit_length_bounds [OF n(1)] n(2) show False by simp
qed

lemma round_binary64_error:
  assumes "0 \<le> n" and "n < 2 ^ (54 + k)"
  shows "round_binary64 n \<le> n + 2 ^ k \<and> n \<le> round_binary64 n + 2 ^ k"
proof (cases "bit_length n \<le> 53")
  case True
  then show ?thesis by (simp add: round_binary64_def)
next
  case False
  then have pos: "0 < n" using assms(1) by (cases "n = 0") (simp_all add: bit_length.simps)
  define q where "q = bit_length n - 53"
  have "bit_length n \<le> 54 + k" using pos assms(2) by (rule bit_length_le)
  with False have q: "1 \<le> q" "q \<le> Suc k" by (simp_all add: q_def)
  then obtain p where p: "q = Suc p" "p \<le> k" by (cases q) auto
  have pk: "(2::int) ^ p \<le> 2 ^ k" using p(2) by (rule power_increasing) simp
  define lo where "lo = n div 2 ^ q"
  define r where "r = n mod 2 ^ q"
  have n: "n = lo * 2 ^ q + r" unfolding lo_def r_def by (rule div_mult_mod_eq [symmetric])
  have r: "r < 2 * 2 ^ p" "0 \<le> r" unfolding r_def p(1) by simp_all
  have e: "round_binary64 n =
      (if 2 ^ p < r \<or> (r = 2 ^ p \<and> odd lo) then (lo + 1) * 2 ^ q else lo * 2 ^ q)"
    using False by (simp add: round_binary64_def Let_def q_def [symmetric] lo_def r_def p(1))
  have up: "(lo + 1) * 2 ^ q = lo * 2 ^ q + 2 * 2 ^ p" by (simp add: p(1) algebra_simps)
  show ?thesis
  proof (cases "2 ^ p < r \<or> (r = 2 ^ p \<and> odd lo)")
    case True
    then have "round_binary64 n = lo * 2 ^ q + 2 * 2 ^ p" "2 ^ p \<le> r"
      using e up by auto
    with n r pk show ?thesis by linarith
  next
    case f: False
    then have "round_binary64 n = lo * 2 ^ q" "r \<le> 2 ^ p"
      using e by auto
    with n r pk show ?thesis by linarith
  qed
qed

lemma round_binary64_nonneg: "0 \<le> n \<Longrightarrow> 0 \<le> round_binary64 n"
  by (simp add: round_binary64_def Let_def pos_imp_zdiv_nonneg_iff)

lemma blend_upper:
  fixes a b s H M F r :: int
  assumes "a \<le> 12610078956637388 * H + 4294967296"
    "b \<le> 5404319552844595 * M + 2147483648"
    "s \<le> a + b + 8589934592"
    "7 * H + 3 * M = 10 * F + r" "0 \<le> H" "0 \<le> M"
  shows "10 * s < 180143985094819840 * F + 18014398509481984 * r + 18014398509481984"
  using assms by linarith

lemma blend_lower:
  fixes a b s H M F r :: int
  assumes "12610078956637388 * H \<le> a + 4294967296"
    "5404319552844595 * M \<le> b + 2147483648"
    "a + b \<le> s + 8589934592"
    "7 * H + 3 * M = 10 * F + r" "H < 4294967296" "M < 4294967296"
  shows "180143985094819840 * F + 18014398509481984 * r \<le> 10 * s + 193273528320"
  using assms by linarith

lemma blend_floor:
  fixes s u F r :: int
  assumes hi: "10 * s < 180143985094819840 * F + 18014398509481984 * r + 18014398509481984"
    and lo: "180143985094819840 * F + 18014398509481984 * r \<le> 10 * s + 193273528320"
    and r: "0 \<le> r" "r < 10"
    and u: "u = s div 18014398509481984"
  shows "u \<le> F" and "F \<le> u + 1" and "0 < r \<Longrightarrow> F \<le> u"
proof -
  have sd: "s = 18014398509481984 * u + s mod 18014398509481984"
    "0 \<le> s mod 18014398509481984" "s mod 18014398509481984 < 18014398509481984"
    by (simp_all add: u)
  define t where "t = s mod 18014398509481984"
  note sd' = sd [folded t_def]
  show "u \<le> F" using hi r sd' by linarith
  show "F \<le> u + 1" using lo r sd' by linarith
  show "F \<le> u" if "0 < r" using lo that sd' by linarith
qed

lemma fp_utility_floor:
  "if (7 * unat h + 3 * unat m) mod 10 = 0
   then unat (fp_utility h m) = (7 * unat h + 3 * unat m) div 10 \<or>
        unat (fp_utility h m) + 1 = (7 * unat h + 3 * unat m) div 10
   else unat (fp_utility h m) = (7 * unat h + 3 * unat m) div 10"
proof -
  define H where "H = uint h"
  define M where "M = uint m"
  have H: "0 \<le> H" "H < 4294967296" unfolding H_def using uint_lt2p [of h] by simp_all
  have M: "0 \<le> M" "M < 4294967296" unfolding M_def using uint_lt2p [of m] by simp_all
  define a where "a = round_binary64 (12610078956637388 * H)"
  define b where "b = round_binary64 (5404319552844595 * M)"
  define s where "s = round_binary64 (a + b)"
  define F where "F = (7 * H + 3 * M) div 10"
  define r where "r = (7 * H + 3 * M) mod 10"
  define u where "u = s div 18014398509481984"
  have N: "7 * H + 3 * M = 10 * F + r" and r9: "0 \<le> r" "r < 10" by (simp_all add: F_def r_def)
  have pa: "0 \<le> 12610078956637388 * H" "12610078956637388 * H < 2 ^ (54 + 32)"
    using H by simp_all
  from round_binary64_error [OF pa] round_binary64_nonneg [OF pa(1)]
  have a: "a \<le> 12610078956637388 * H + 4294967296" "12610078956637388 * H \<le> a + 4294967296"
    "0 \<le> a"
    by (simp_all add: a_def)
  have pb: "0 \<le> 5404319552844595 * M" "5404319552844595 * M < 2 ^ (54 + 31)"
    using M by simp_all
  from round_binary64_error [OF pb] round_binary64_nonneg [OF pb(1)]
  have b: "b \<le> 5404319552844595 * M + 2147483648" "5404319552844595 * M \<le> b + 2147483648"
    "0 \<le> b"
    by (simp_all add: b_def)
  have "a + b < 154742504910672534362390528" using a(1) b(1) H(2) M(2) by linarith
  then have ps: "0 \<le> a + b" "a + b < 2 ^ (54 + 33)" using a(3) b(3) by simp_all
  from round_binary64_error [OF ps] round_binary64_nonneg [OF ps(1)]
  have s: "s \<le> a + b + 8589934592" "a + b \<le> s + 8589934592" "0 \<le> s"
    by (simp_all add: s_def)
  note hi = blend_upper [OF a(1) b(1) s(1) N H(1) M(1)]
  note lo = blend_lower [OF a(2) b(2) s(2) N H(2) M(2)]
  note fl = blend_floor [OF hi lo r9 u_def]
  have u0: "0 \<le> u" unfolding u_def using s(3) by (simp add: pos_imp_zdiv_nonneg_iff)
  have Fb: "F < 4294967296" using N H(2) M(2) r9(1) by linarith
  have uu: "uint (fp_utility h m) = u"
  proof -
    have "fp_utility h m = word_of_int u"
      by (simp add: fp_utility_def Let_def a_def b_def s_def H_def M_def u_def)
    moreover have "u < 2 ^ 32" using fl(1) Fb by simp
    ultimately show ?thesis using u0 by (simp add: uint_word_of_int take_bit_int_eq_self)
  qed
  have un: "int (unat (fp_utility h m)) = u" using uu by simp
  have Fn: "int ((7 * unat h + 3 * unat m) div 10) = F"
    by (simp add: F_def H_def M_def zdiv_int)
  have rn: "int ((7 * unat h + 3 * unat m) mod 10) = r"
    by (simp add: r_def H_def M_def zmod_int)
  show ?thesis
  proof (cases "(7 * unat h + 3 * unat m) mod 10 = 0")
    case True
    from fl(1,2) have "u = F \<or> u + 1 = F" by linarith
    moreover have "int (unat (fp_utility h m) + 1) = u + 1" using un uu by simp
    ultimately have "int (unat (fp_utility h m)) = int ((7 * unat h + 3 * unat m) div 10) \<or>
        int (unat (fp_utility h m) + 1) = int ((7 * unat h + 3 * unat m) div 10)"
      unfolding un Fn by (simp only:)
    then have "unat (fp_utility h m) = (7 * unat h + 3 * unat m) div 10 \<or>
        unat (fp_utility h m) + 1 = (7 * unat h + 3 * unat m) div 10"
      unfolding of_nat_eq_iff .
    with True show ?thesis by simp
  next
    case False
    then have "0 < r" using rn r9(1) by (cases "r = 0") simp_all
    from fl(3) [OF this] fl(1) have "u = F" by simp
    then have "int (unat (fp_utility h m)) = int ((7 * unat h + 3 * unat m) div 10)"
      unfolding un Fn .
    then have "unat (fp_utility h m) = (7 * unat h + 3 * unat m) div 10"
      unfolding of_nat_eq_iff .
    with False show ?thesis by simp
  qed
qed

lemma fp_utility_examples:
  "fp_utility 3 3 = 2" "fp_utility 90 0 = 62" "fp_utility 10 0 = 7" "fp_utility 19 9 = 15"
  "fp_utility 4 9 = 5"
  by code_simp+

text \<open>
  Claim C4, as stated, fails. In \<open>dwp_example_cache\<close> the set is full, the lines of core 0
  have 4 hits and those of core 1 have 19, and the set has 9 misses. The specification
  gives core 1 the utility \<open>(7 * 19 + 3 * 9) div 10 = 16\<close> and the quota \<open>5 * 4 div 21 = 0\<close>;
  the code computes \<open>0.7 * 19\<close> and \<open>0.3 * 9\<close> in double precision, their sum is just below
  16, the utility is 15, and \<open>DWP_CORE0_WAYS\<close> becomes \<open>5 * 4 div 20 = 1\<close>.
\<close>

theorem dwp_quota_counterexample:
  "policy dwp_example_cache = DWP \<and> ways dwp_example_cache = 4 \<and>
   map valid (row (cacheGrid dwp_example_cache ! 0)) = [True, True, True, True] \<and>
   map coreID (row (cacheGrid dwp_example_cache ! 0)) = [0, 0, 1, 1] \<and>
   take 4 (totalHits (umon (cacheGrid dwp_example_cache ! 0))) = [4, 0, 0, 19] \<and>
   totalMisses (umon (cacheGrid dwp_example_cache ! 0)) = 9 \<and>
   spec_utility 4 9 = 5 \<and> spec_utility 19 9 = 16 \<and>
   fp_utility 4 9 = 5 \<and> fp_utility 19 9 = 15 \<and>
   spec_dwp_quota dwp_example_cache (cacheGrid dwp_example_cache ! 0) = 0 \<and>
   DWP_CORE0_WAYS (snd (cache_find_victim example_globals dwp_example_cache 0 1)) = 1 \<and>
   DWP_CORE0_WAYS (snd (cache_install example_globals dwp_example_cache 8 False 1)) = 1"
  by code_simp

lemma fp_utility_spec:
  "unat (fp_utility h m) \<le> spec_utility (unat h) (unat m)"
  "spec_utility (unat h) (unat m) \<le> unat (fp_utility h m) + 1"
  "(7 * unat h + 3 * unat m) mod 10 \<noteq> 0 \<Longrightarrow>
     unat (fp_utility h m) = spec_utility (unat h) (unat m)"
  using fp_utility_floor [of h m] by (auto simp add: spec_utility_def split: if_splits)

lemma unat_quota:
  fixes u0 u1 w :: u32
  assumes "unat u0 * unat w < 2 ^ 32" and "unat u0 + unat u1 < 2 ^ 32"
  shows "unat ((u0 * w) div max (u0 + u1) 1) =
           (unat u0 * unat w) div max (unat u0 + unat u1) 1"
proof -
  have m: "unat (u0 * w) = unat u0 * unat w"
    using assms(1) by (simp add: unat_mult_lem [THEN iffD1])
  have a: "unat (u0 + u1) = unat u0 + unat u1"
    using assms(2) by (simp add: unat_add_lem [THEN iffD1])
  have "unat (max (u0 + u1) 1) = max (unat (u0 + u1)) 1"
    by (simp add: max_def word_le_nat_alt)
  then show ?thesis by (simp add: unat_div m a)
qed

text \<open>
  Claim C4, amended. \<open>cache_find_victim\<close> under DWP on a full set sets \<open>DWP_CORE0_WAYS\<close> to
  \<open>utility 0 * W\<close> divided by the larger of \<open>utility 0 + utility 1\<close> and 1, in 32-bit
  unsigned arithmetic (the quotient of the natural numbers when neither the product nor
  the sum reaches \<open>2 ^ 32\<close>). The hits of a core are the 32-bit sum of \<open>totalHits\<close> over the
  ways whose line belongs to the core, the misses of both cores are \<open>totalMisses\<close> of the
  set, and the utility of a core is \<open>(0.7 * hits) + (0.3 * misses)\<close> in double precision
  cut to an integer: this is the integer part of \<open>0.7 * hits + 0.3 * misses\<close> when
  \<open>7 * hits + 3 * misses\<close> is not a multiple of 10, and that number or one less when it
  is. The victim is the one SWP picks with this quota in place of \<open>SWP_CORE0_WAYS\<close>.
\<close>

theorem dwp_quota_update:
  assumes "policy c = DWP"
    and "\<forall>l \<in> set (row (cacheGrid c ! set_index)). valid l"
  shows "let s = cacheGrid c ! set_index;
             hits = (\<lambda>core. sum_list (map snd (filter (\<lambda>(l, h). coreID l = core)
                                 (zip (row s) (totalHits (umon s))))));
             misses = totalMisses (umon s);
             utility = (\<lambda>core. fp_utility (hits core) misses);
             quota = (utility 0 * ways c) div max (utility 0 + utility 1) 1
         in snd (cache_find_victim g c set_index core_id) = g\<lparr>DWP_CORE0_WAYS := quota\<rparr> \<and>
            fst (cache_find_victim g c set_index core_id) =
              fst (cache_find_victim (g\<lparr>SWP_CORE0_WAYS := quota\<rparr>) (c\<lparr>policy := SWP\<rparr>)
                     set_index core_id) \<and>
            (unat (utility 0) * unat (ways c) < 2 ^ 32 \<and>
             unat (utility 0) + unat (utility 1) < 2 ^ 32 \<longrightarrow>
               unat quota = (unat (utility 0) * unat (ways c)) div
                              max (unat (utility 0) + unat (utility 1)) 1) \<and>
            (\<forall>core. unat (utility core) \<le> spec_utility (unat (hits core)) (unat misses) \<and>
                    spec_utility (unat (hits core)) (unat misses) \<le> unat (utility core) + 1 \<and>
                    ((7 * unat (hits core) + 3 * unat misses) mod 10 \<noteq> 0 \<longrightarrow>
                       unat (utility core) = spec_utility (unat (hits core)) (unat misses)))"
proof -
  have "first_invalid (row (cacheGrid c ! set_index)) 0 = None"
    using assms(2) by (simp add: first_invalid_None)
  then have v: "let s = cacheGrid c ! set_index;
             hits = (\<lambda>core. sum_list (map snd (filter (\<lambda>(l, h). coreID l = core)
                                 (zip (row s) (totalHits (umon s))))));
             misses = totalMisses (umon s);
             utility = (\<lambda>core. fp_utility (hits core) misses);
             quota = (utility 0 * ways c) div max (utility 0 + utility 1) 1
         in snd (cache_find_victim g c set_index core_id) = g\<lparr>DWP_CORE0_WAYS := quota\<rparr> \<and>
            fst (cache_find_victim g c set_index core_id) =
              fst (cache_find_victim (g\<lparr>SWP_CORE0_WAYS := quota\<rparr>) (c\<lparr>policy := SWP\<rparr>)
                     set_index core_id)"
    using assms(1)
    by (simp add: cache_find_victim_def dwp_quota_def hits_of_core_sum Let_def)
  show ?thesis
    using v unfolding Let_def
    by (intro conjI impI allI unat_quota fp_utility_spec) simp_all
qed

theorem dwp_quota_update_witness:
  "DWP_CORE0_WAYS (snd (cache_find_victim example_globals dwp_example_cache 0 1)) = 1 \<and>
   fst (cache_find_victim example_globals dwp_example_cache 0 1) = 2 \<and>
   unat (fp_utility 19 9) \<le> spec_utility 19 9 \<and> spec_utility 19 9 \<le> unat (fp_utility 19 9) + 1"
proof -
  let ?s = "cacheGrid dwp_example_cache ! 0"
  let ?hits = "\<lambda>core. sum_list (map snd (filter (\<lambda>(l, h). coreID l = core)
                                 (zip (row ?s) (totalHits (umon ?s)))))"
  have p: "policy dwp_example_cache = DWP"
    by code_simp
  have f: "\<forall>l \<in> set (row (cacheGrid dwp_example_cache ! 0)). valid l"
    by code_simp
  have h: "?hits 0 = 4" "?hits 1 = 19" "totalMisses (umon ?s) = 9" "ways dwp_example_cache = 4"
    by code_simp+
  have u: "fp_utility 4 9 = 5" "fp_utility 19 9 = 15"
    by code_simp+
  have v: "fst (cache_find_victim (example_globals\<lparr>SWP_CORE0_WAYS := 1\<rparr>)
                  (dwp_example_cache\<lparr>policy := SWP\<rparr>) 0 1) = 2"
    by code_simp
  note t = dwp_quota_update [OF p f, of example_globals 1, unfolded Let_def]
  from t have a: "snd (cache_find_victim example_globals dwp_example_cache 0 1) =
      example_globals\<lparr>DWP_CORE0_WAYS :=
        (fp_utility (?hits 0) (totalMisses (umon ?s)) * ways dwp_example_cache) div
        max (fp_utility (?hits 0) (totalMisses (umon ?s)) +
             fp_utility (?hits 1) (totalMisses (umon ?s))) 1\<rparr>"
    by blast
  from t have b: "fst (cache_find_victim example_globals dwp_example_cache 0 1) =
      fst (cache_find_victim
        (example_globals\<lparr>SWP_CORE0_WAYS :=
           (fp_utility (?hits 0) (totalMisses (umon ?s)) * ways dwp_example_cache) div
           max (fp_utility (?hits 0) (totalMisses (umon ?s)) +
                fp_utility (?hits 1) (totalMisses (umon ?s))) 1\<rparr>)
        (dwp_example_cache\<lparr>policy := SWP\<rparr>) 0 1)"
    by blast
  from t have c: "unat (fp_utility (?hits 1) (totalMisses (umon ?s))) \<le>
        spec_utility (unat (?hits 1)) (unat (totalMisses (umon ?s))) \<and>
      spec_utility (unat (?hits 1)) (unat (totalMisses (umon ?s))) \<le>
        unat (fp_utility (?hits 1) (totalMisses (umon ?s))) + 1"
    by blast
  from a b c v show ?thesis
    unfolding h u by simp
qed

end
